theory Spec2Isabelle
  imports Main "HOL-Library.Sublist" "HOL-Library.AList"
begin

section \<open>Strings and the runtime's character tables\<close>

text \<open>
  A Python 3 \<^verbatim>\<open>str\<close> is a sequence of Unicode code points: a string is a list of
  natural numbers. The classification and case mapping of ASCII characters is
  written out below. The behaviour of \<^verbatim>\<open>\s\<close>, \<^verbatim>\<open>\d\<close>, \<^verbatim>\<open>str.isdigit\<close>,
  \<^verbatim>\<open>str.upper\<close>, \<^verbatim>\<open>str.lower\<close> and \<^verbatim>\<open>str.title\<close> on code points from 128 on is
  decided by the Unicode database of the interpreter, which is not part of
  \<^verbatim>\<open>main.py\<close>: it is a parameter \<open>db\<close> of every function that consults it.
\<close>

type_synonym ustring = "nat list"

record unicode_db =
  uc_space :: "nat \<Rightarrow> bool"
  uc_decimal :: "nat \<Rightarrow> bool"
  uc_digit :: "nat \<Rightarrow> bool"
  uc_upper :: "ustring \<Rightarrow> ustring"
  uc_lower :: "ustring \<Rightarrow> ustring"
  uc_title :: "ustring \<Rightarrow> ustring"

abbreviation ord :: "char \<Rightarrow> nat" where
  "ord \<equiv> of_char"

definition ustr :: "string \<Rightarrow> ustring" where
  "ustr s = map ord s"

definition is_ascii :: "ustring \<Rightarrow> bool" where
  "is_ascii s = list_all (\<lambda>c. c < 128) s"

text \<open>
  \<^verbatim>\<open>str.strip()\<close> and \<^verbatim>\<open>\s\<close> use the same test. Its ASCII part is TAB, LF, VT,
  FF, CR, the four separators FS, GS, RS, US, and the space.
\<close>

definition is_space :: "unicode_db \<Rightarrow> nat \<Rightarrow> bool" where
  "is_space db c =
     (if c < 128 then (9 \<le> c \<and> c \<le> 13) \<or> (28 \<le> c \<and> c \<le> 32) else uc_space db c)"

text \<open>\<^verbatim>\<open>\d\<close> (and its complement \<^verbatim>\<open>\D\<close>): the decimal digits.\<close>

definition is_decimal :: "unicode_db \<Rightarrow> nat \<Rightarrow> bool" where
  "is_decimal db c = (if c < 128 then 48 \<le> c \<and> c \<le> 57 else uc_decimal db c)"

text \<open>\<^verbatim>\<open>str.isdigit()\<close> tests every character with the (wider) digit property.\<close>

definition is_digit :: "unicode_db \<Rightarrow> nat \<Rightarrow> bool" where
  "is_digit db c = (if c < 128 then 48 \<le> c \<and> c \<le> 57 else uc_digit db c)"

definition isdigit :: "unicode_db \<Rightarrow> ustring \<Rightarrow> bool" where
  "isdigit db s = (s \<noteq> [] \<and> list_all (is_digit db) s)"

text \<open>The cased ASCII characters are the letters A-Z (65-90) and a-z (97-122).\<close>

definition is_ascii_letter :: "nat \<Rightarrow> bool" where
  "is_ascii_letter c = ((65 \<le> c \<and> c \<le> 90) \<or> (97 \<le> c \<and> c \<le> 122))"

definition ascii_upper :: "nat \<Rightarrow> nat" where
  "ascii_upper c = (if 97 \<le> c \<and> c \<le> 122 then c - 32 else c)"

definition ascii_lower :: "nat \<Rightarrow> nat" where
  "ascii_lower c = (if 65 \<le> c \<and> c \<le> 90 then c + 32 else c)"

definition py_upper :: "unicode_db \<Rightarrow> ustring \<Rightarrow> ustring" where
  "py_upper db s = (if is_ascii s then map ascii_upper s else uc_upper db s)"

definition py_lower :: "unicode_db \<Rightarrow> ustring \<Rightarrow> ustring" where
  "py_lower db s = (if is_ascii s then map ascii_lower s else uc_lower db s)"

text \<open>
  \<^verbatim>\<open>str.title()\<close> walks the string with one flag, whether the previous character
  was cased: a character after a cased one is lower-cased, any other is
  title-cased (for an ASCII letter, upper-cased).
\<close>

fun title_from :: "bool \<Rightarrow> ustring \<Rightarrow> ustring" where
  "title_from previous_is_cased [] = []"
| "title_from previous_is_cased (c # cs) =
     (if previous_is_cased then ascii_lower c else ascii_upper c)
       # title_from (is_ascii_letter c) cs"

definition py_title :: "unicode_db \<Rightarrow> ustring \<Rightarrow> ustring" where
  "py_title db s = (if is_ascii s then title_from False s else uc_title db s)"

text \<open>\<^verbatim>\<open>s.split(sep)\<close> for a separator of one character, and \<^verbatim>\<open>sep.join(parts)\<close>.\<close>

fun split_on :: "nat \<Rightarrow> ustring \<Rightarrow> ustring list" where
  "split_on sep [] = [[]]"
| "split_on sep (c # cs) =
     (if c = sep then [] # split_on sep cs
      else (case split_on sep cs of [] \<Rightarrow> [[c]] | w # ws \<Rightarrow> (c # w) # ws))"

fun join :: "ustring \<Rightarrow> ustring list \<Rightarrow> ustring" where
  "join sep [] = []"
| "join sep [w] = w"
| "join sep (w # ws) = w @ sep @ join sep ws"

section \<open>Field normalisation\<close>

text \<open>\<^verbatim>\<open>text.strip()\<close>\<close>

definition strip :: "unicode_db \<Rightarrow> ustring \<Rightarrow> ustring" where
  "strip db s = rev (dropWhile (is_space db) (rev (dropWhile (is_space db) s)))"

text \<open>\<^verbatim>\<open>re.sub(r"\s+", " ", text)\<close>: every maximal run of whitespace becomes one space.\<close>

function collapse_spaces :: "unicode_db \<Rightarrow> ustring \<Rightarrow> ustring" where
  "collapse_spaces db [] = []"
| "collapse_spaces db (c # cs) =
     (if is_space db c then ord CHR '' '' # collapse_spaces db (dropWhile (is_space db) cs)
      else c # collapse_spaces db cs)"
  by pat_completeness auto
termination
  by (relation "measure (\<lambda>(db, s). length s)")
     (auto simp: length_dropWhile_le less_Suc_eq_le)

text \<open>
  \<^verbatim>\<open>
  def normalise_spaces(text):
      text = (text or "").strip()
      return re.sub(r"\s+", " ", text)
  \<close>
  The argument may be \<^verbatim>\<open>None\<close>.
\<close>

definition normalise_spaces :: "unicode_db \<Rightarrow> ustring option \<Rightarrow> ustring" where
  "normalise_spaces db text =
     collapse_spaces db (strip db (case text of None \<Rightarrow> [] | Some t \<Rightarrow> t))"

text \<open>
  The strings that \<^verbatim>\<open>normalise_spaces\<close> leaves as they are: no whitespace at either
  end, and no whitespace inside but single spaces between other characters.
\<close>

fun normalised :: "unicode_db \<Rightarrow> ustring \<Rightarrow> bool" where
  "normalised db [] = True"
| "normalised db [c] = (\<not> is_space db c)"
| "normalised db (c # d # r) =
     (\<not> is_space db c \<and>
      (if d = ord CHR '' '' then r \<noteq> [] \<and> normalised db r else normalised db (d # r)))"

text \<open>
  \<^verbatim>\<open>
  def clean_phone(phone):
      phone = normalise_spaces(phone)
      phone = re.sub(r"[^\d+]", "", phone)
      if phone.startswith("+44"):
          phone = "0" + phone[3:]
      phone = re.sub(r"\D", "", phone)
      return phone
  \<close>
\<close>

definition keep_digits_plus :: "unicode_db \<Rightarrow> ustring \<Rightarrow> ustring" where
  "keep_digits_plus db s = filter (\<lambda>c. is_decimal db c \<or> c = ord CHR ''+'') s"

definition clean_phone :: "unicode_db \<Rightarrow> ustring option \<Rightarrow> ustring" where
  "clean_phone db phone =
     (let p = normalise_spaces db phone;
          p = keep_digits_plus db p;
          p = (if prefix (ustr ''+44'') p then ord CHR ''0'' # drop 3 p else p)
      in filter (is_decimal db) p)"

text \<open>
  \<^verbatim>\<open>
  def clean_name(name):
      name = normalise_spaces(name)
      if not name:
          return ""
      words = []
      for word in name.split(" "):
          parts = [p[:1].upper() + p[1:].lower() if p else "" for p in word.split("-")]
          words.append("-".join(parts))
      return " ".join(words)
  \<close>
\<close>

definition capitalise_part :: "unicode_db \<Rightarrow> ustring \<Rightarrow> ustring" where
  "capitalise_part db p =
     (if p \<noteq> [] then py_upper db (take 1 p) @ py_lower db (drop 1 p) else [])"

definition clean_word :: "unicode_db \<Rightarrow> ustring \<Rightarrow> ustring" where
  "clean_word db word =
     join (ustr ''-'') (map (capitalise_part db) (split_on (ord CHR ''-'') word))"

definition clean_name :: "unicode_db \<Rightarrow> ustring option \<Rightarrow> ustring" where
  "clean_name db raw =
     (let n = normalise_spaces db raw
      in if n = [] then []
         else join (ustr '' '') (map (clean_word db) (split_on (ord CHR '' '') n)))"

text \<open>\<^verbatim>\<open>return normalise_spaces(email).lower()\<close>\<close>

definition clean_email :: "unicode_db \<Rightarrow> ustring option \<Rightarrow> ustring" where
  "clean_email db raw = py_lower db (normalise_spaces db raw)"

text \<open>
  \<^verbatim>\<open>
  def clean_company(company):
      company = normalise_spaces(company)
      if not company:
          return ""
      return company.title()
  \<close>
\<close>

definition clean_company :: "unicode_db \<Rightarrow> ustring option \<Rightarrow> ustring" where
  "clean_company db raw =
     (let c = normalise_spaces db raw in if c = [] then [] else py_title db c)"

section \<open>Records\<close>

text \<open>
  A row of \<^verbatim>\<open>csv.DictReader\<close> maps column names to values; the value of a column
  that a short line does not reach is \<^verbatim>\<open>None\<close>. \<^verbatim>\<open>row.get(key, "")\<close> gives the
  empty string for a column that the header does not have.
\<close>

type_synonym raw_row = "ustring \<rightharpoonup> ustring option"

definition row_get :: "raw_row \<Rightarrow> ustring \<Rightarrow> ustring option" where
  "row_get row key = (case row key of None \<Rightarrow> Some [] | Some v \<Rightarrow> v)"

record contact =
  name :: ustring
  email :: ustring
  phone :: ustring
  company :: ustring

definition clean_contact :: "unicode_db \<Rightarrow> raw_row \<Rightarrow> contact" where
  "clean_contact db row =
     \<lparr>name = clean_name db (row_get row (ustr ''name'')),
      email = clean_email db (row_get row (ustr ''email'')),
      phone = clean_phone db (row_get row (ustr ''phone'')),
      company = clean_company db (row_get row (ustr ''company''))\<rparr>"

section \<open>Validation\<close>

text \<open>
  \<^verbatim>\<open>re.match\<close> tries the pattern at the start of the string and backtracks over
  the greedy repetitions; a match need not reach the end of the string unless
  the pattern says so. The items are those the pattern of \<^verbatim>\<open>is_valid_email\<close>
  is made of: \<^verbatim>\<open>^\<close>, \<^verbatim>\<open>$\<close> (the end of the string, or just before a newline
  that ends it), a literal character, and \<^verbatim>\<open>[...]+\<close>. The flag says whether the
  position is the start of the string.
\<close>

datatype rx_item = Bol | Eol | Lit nat | PlusClass "nat \<Rightarrow> bool"

fun rx_match :: "rx_item list \<Rightarrow> bool \<Rightarrow> ustring \<Rightarrow> bool" where
  "rx_match [] at_start s = True"
| "rx_match (Bol # r) at_start s = (at_start \<and> rx_match r at_start s)"
| "rx_match (Eol # r) at_start s = ((s = [] \<or> s = [10]) \<and> rx_match r at_start s)"
| "rx_match (Lit c # r) at_start [] = False"
| "rx_match (Lit c # r) at_start (x # xs) = (x = c \<and> rx_match r False xs)"
| "rx_match (PlusClass p # r) at_start [] = False"
| "rx_match (PlusClass p # r) at_start (x # xs) =
     (p x \<and> (rx_match (PlusClass p # r) False xs \<or> rx_match r False xs))"

text \<open>
  \<^verbatim>\<open>
  def is_valid_email(email):
      email = email.strip()
      return bool(re.match(r"^[^@\s]+@[^@\s]+\.[^@\s]+$", email))
  \<close>
\<close>

definition not_at_or_space :: "unicode_db \<Rightarrow> nat \<Rightarrow> bool" where
  "not_at_or_space db c = (c \<noteq> ord CHR ''@'' \<and> \<not> is_space db c)"

definition email_pattern :: "unicode_db \<Rightarrow> rx_item list" where
  "email_pattern db =
     [Bol, PlusClass (not_at_or_space db), Lit (ord CHR ''@''),
      PlusClass (not_at_or_space db), Lit (ord CHR ''.''),
      PlusClass (not_at_or_space db), Eol]"

definition is_valid_email :: "unicode_db \<Rightarrow> ustring \<Rightarrow> bool" where
  "is_valid_email db e = rx_match (email_pattern db) True (strip db e)"

text \<open>
  \<^verbatim>\<open>
  def is_valid_uk_phone(phone):
      return phone.isdigit() and phone.startswith("0") and (10 <= len(phone) <= 11)
  \<close>
\<close>

definition is_valid_uk_phone :: "unicode_db \<Rightarrow> ustring \<Rightarrow> bool" where
  "is_valid_uk_phone db p =
     (isdigit db p \<and> prefix (ustr ''0'') p \<and> 10 \<le> length p \<and> length p \<le> 11)"

text \<open>
  \<^verbatim>\<open>
  def completeness_score(contact):
      score = 0
      for key in ["name", "email", "phone", "company"]:
          if contact.get(key):
              score += 1
      return score
  \<close>
\<close>

definition completeness_score :: "contact \<Rightarrow> nat" where
  "completeness_score c =
     length (filter (\<lambda>v. v \<noteq> []) [name c, email c, phone c, company c])"

section \<open>The statistics pass\<close>

record stats =
  total :: nat
  missing_name :: nat
  missing_email :: nat
  invalid_email :: nat
  missing_phone :: nat
  invalid_phone :: nat
  missing_company :: nat

definition initial_stats :: stats where
  "initial_stats =
     \<lparr>total = 0, missing_name = 0, missing_email = 0, invalid_email = 0,
      missing_phone = 0, invalid_phone = 0, missing_company = 0\<rparr>"

text \<open>
  The body of the first loop of \<^verbatim>\<open>main\<close>, for one row:
  \<^verbatim>\<open>
        stats["total"] += 1
        cleaned = clean_contact(row)
        cleaned_contacts.append(cleaned)
        if not cleaned["name"]:
            stats["missing_name"] += 1
        if not cleaned["email"]:
            stats["missing_email"] += 1
        elif not is_valid_email(cleaned["email"]):
            stats["invalid_email"] += 1
        if not cleaned["phone"]:
            stats["missing_phone"] += 1
        elif not is_valid_uk_phone(cleaned["phone"]):
            stats["invalid_phone"] += 1
        if not cleaned["company"]:
            stats["missing_company"] += 1
  \<close>
\<close>

definition count_row :: "unicode_db \<Rightarrow> stats \<Rightarrow> raw_row \<Rightarrow> contact \<times> stats" where
  "count_row db st row =
     (let st = st\<lparr>total := total st + 1\<rparr>;
          cleaned = clean_contact db row;
          st = (if name cleaned = [] then st\<lparr>missing_name := missing_name st + 1\<rparr> else st);
          st = (if email cleaned = [] then st\<lparr>missing_email := missing_email st + 1\<rparr>
                else if \<not> is_valid_email db (email cleaned)
                then st\<lparr>invalid_email := invalid_email st + 1\<rparr> else st);
          st = (if phone cleaned = [] then st\<lparr>missing_phone := missing_phone st + 1\<rparr>
                else if \<not> is_valid_uk_phone db (phone cleaned)
                then st\<lparr>invalid_phone := invalid_phone st + 1\<rparr> else st);
          st = (if company cleaned = [] then st\<lparr>missing_company := missing_company st + 1\<rparr>
                else st)
      in (cleaned, st))"

fun count_rows :: "unicode_db \<Rightarrow> contact list \<times> stats \<Rightarrow> raw_row list \<Rightarrow> contact list \<times> stats" where
  "count_rows db (cleaned_contacts, st) [] = (cleaned_contacts, st)"
| "count_rows db (cleaned_contacts, st) (row # rows) =
     (case count_row db st row of
        (cleaned, st') \<Rightarrow> count_rows db (cleaned_contacts @ [cleaned], st') rows)"

section \<open>Deduplication\<close>

text \<open>
  \<^verbatim>\<open>deduped\<close> is a dictionary, which keeps its keys in the order of their first
  insertion: an association list, where storing under a key that is present
  replaces the value in place and storing under a new key appends
  (\<^const>\<open>AList.update\<close>), and \<^const>\<open>map_of\<close> looks a key up.

  The key of a record without email is \<^verbatim>\<open>"NOEMAIL_{}".format(id(c))\<close>. \<^verbatim>\<open>id(c)\<close> is
  the identity of the object \<^verbatim>\<open>c\<close>, an integer that no two objects alive at the
  same time share; the records of \<^verbatim>\<open>cleaned_contacts\<close> are all alive during the
  loop. The loop therefore runs over the records paired with their identities.
\<close>

fun decimal :: "nat \<Rightarrow> ustring" where
  "decimal n = (if n < 10 then [48 + n] else decimal (n div 10) @ [48 + n mod 10])"

declare decimal.simps [simp del]

definition noemail_key :: "nat \<Rightarrow> ustring" where
  "noemail_key i = ustr ''NOEMAIL_'' @ decimal i"

record dedupe_state =
  deduped :: "(ustring \<times> contact) list"
  duplicates_removed :: nat

text \<open>
  \<^verbatim>\<open>
    for c in cleaned_contacts:
        email = c["email"]
        if not email:
            deduped["NOEMAIL_{}".format(id(c))] = c
            continue
        if email not in deduped:
            deduped[email] = c
        else:
            existing = deduped[email]
            if completeness_score(c) > completeness_score(existing):
                deduped[email] = c
            duplicates_removed += 1
  \<close>
\<close>

definition dedupe_step :: "dedupe_state \<Rightarrow> nat \<times> contact \<Rightarrow> dedupe_state" where
  "dedupe_step st ic =
     (case ic of (i, c) \<Rightarrow>
        if email c = [] then st\<lparr>deduped := AList.update (noemail_key i) c (deduped st)\<rparr>
        else (case map_of (deduped st) (email c) of
                None \<Rightarrow> st\<lparr>deduped := AList.update (email c) c (deduped st)\<rparr>
              | Some existing \<Rightarrow>
                  (let st = (if completeness_score c > completeness_score existing
                             then st\<lparr>deduped := AList.update (email c) c (deduped st)\<rparr>
                             else st)
                   in st\<lparr>duplicates_removed := duplicates_removed st + 1\<rparr>)))"

definition dedupe_from :: "dedupe_state \<Rightarrow> (nat \<times> contact) list \<Rightarrow> dedupe_state" where
  "dedupe_from st cleaned_contacts = foldl dedupe_step st cleaned_contacts"

definition dedupe :: "(nat \<times> contact) list \<Rightarrow> dedupe_state" where
  "dedupe cleaned_contacts = dedupe_from \<lparr>deduped = [], duplicates_removed = 0\<rparr> cleaned_contacts"

text \<open>The key under which the loop files a record.\<close>

definition key_of :: "nat \<times> contact \<Rightarrow> ustring" where
  "key_of ic = (if email (snd ic) = [] then noemail_key (fst ic) else email (snd ic))"

text \<open>\<^verbatim>\<open>deduped_contacts = list(deduped.values())\<close>\<close>

definition deduped_contacts :: "dedupe_state \<Rightarrow> contact list" where
  "deduped_contacts st = map snd (deduped st)"

section \<open>Loading\<close>

text \<open>
  The file system maps a path to what opening and reading it gives: the text
  of the file, or a failure (a directory, a file without read permission,
  bytes that are not UTF-8). The log records every path that was opened.
  \<^verbatim>\<open>csv.DictReader\<close> belongs to the standard library: the parser is a parameter,
  which gives the rows of a text or fails on it.
  \<^verbatim>\<open>
  def open_csv_read(path):
      if PY2:
          return open(path, "rb")
      return io.open(path, mode="r", encoding="utf-8", newline="")

  def load_contacts(path):
      if not os.path.exists(path):
          raise IOError("Contacts file not found: {}".format(path))
      with open_csv_read(path) as f:
          return list(csv.DictReader(f))
  \<close>
\<close>

datatype error = IOError ustring | ReadError | CsvError

datatype fs_entry = Text ustring | Unreadable

record world =
  files :: "ustring \<rightharpoonup> fs_entry"
  opened :: "ustring list"

definition exists :: "world \<Rightarrow> ustring \<Rightarrow> bool" where
  "exists w path = (files w path \<noteq> None)"

text \<open>Opening a path and reading through the handle, in either mode.\<close>

definition open_file :: "world \<Rightarrow> ustring \<Rightarrow> (error + ustring) \<times> world" where
  "open_file w path =
     (let w' = w\<lparr>opened := opened w @ [path]\<rparr>
      in case files w path of
           Some (Text t) \<Rightarrow> (Inr t, w')
         | _ \<Rightarrow> (Inl ReadError, w'))"

definition open_csv_read :: "bool \<Rightarrow> world \<Rightarrow> ustring \<Rightarrow> (error + ustring) \<times> world" where
  "open_csv_read PY2 w path = (if PY2 then open_file w path else open_file w path)"

definition load_contacts ::
  "bool \<Rightarrow> (ustring \<Rightarrow> raw_row list option) \<Rightarrow> world \<Rightarrow> ustring
     \<Rightarrow> (error + raw_row list) \<times> world" where
  "load_contacts PY2 dict_reader w path =
     (if \<not> exists w path
      then (Inl (IOError (ustr ''Contacts file not found: '' @ path)), w)
      else (case open_csv_read PY2 w path of
              (Inl e, w') \<Rightarrow> (Inl e, w')
            | (Inr f, w') \<Rightarrow>
                (case dict_reader f of
                   None \<Rightarrow> (Inl CsvError, w')
                 | Some rows \<Rightarrow> (Inr rows, w'))))"

section \<open>The specification's reading of two functions\<close>

text \<open>
  The specification describes \<^verbatim>\<open>is_valid_email\<close> as a match of the same pattern
  anchored at the start only: a prefix of the stripped string has to match.
\<close>

definition spec_is_valid_email :: "unicode_db \<Rightarrow> ustring \<Rightarrow> bool" where
  "spec_is_valid_email db e =
     rx_match
       [Bol, PlusClass (not_at_or_space db), Lit (ord CHR ''@''),
        PlusClass (not_at_or_space db), Lit (ord CHR ''.''),
        PlusClass (not_at_or_space db)]
       True (strip db e)"

text \<open>
  The specification describes the title case of \<^verbatim>\<open>clean_company\<close> word by word:
  the words are delimited by whitespace, the first character of a word is
  upper-cased and every other character of the word is lower-cased.
\<close>

definition spec_capitalise_word :: "ustring \<Rightarrow> ustring" where
  "spec_capitalise_word w =
     (case w of [] \<Rightarrow> [] | c # cs \<Rightarrow> ascii_upper c # map ascii_lower cs)"

definition spec_clean_company :: "ustring \<Rightarrow> ustring" where
  "spec_clean_company s =
     join (ustr '' '') (map spec_capitalise_word (split_on (ord CHR '' '') s))"

section \<open>A character table for the examples\<close>

text \<open>
  The examples run with a table that has three entries beyond ASCII, all as in
  CPython 3: the no-break space U+00A0 is whitespace; the upper case of
  U+00DF (sharp s) is the two letters SS; and the title case of the cased
  letter U+01F0 (j with caron) is J followed by the combining caron U+030C,
  which is not a cased character. Every other code point from 128 on is a
  caseless symbol in it; the examples do not use any.
\<close>

definition upper_sharp_s :: "nat \<Rightarrow> ustring" where
  "upper_sharp_s c = (if c = 223 then ustr ''SS'' else [ascii_upper c])"

fun example_title_from :: "bool \<Rightarrow> ustring \<Rightarrow> ustring" where
  "example_title_from previous_is_cased [] = []"
| "example_title_from previous_is_cased (c # cs) =
     (if c = 496 then (if previous_is_cased then [496] else [74, 780])
      else [if previous_is_cased then ascii_lower c else ascii_upper c])
       @ example_title_from (c = 496 \<or> is_ascii_letter c) cs"

definition example_db :: unicode_db where
  "example_db =
     \<lparr>uc_space = (\<lambda>c. c = 160), uc_decimal = (\<lambda>c. False), uc_digit = (\<lambda>c. False),
      uc_upper = (\<lambda>s. concat (map upper_sharp_s s)),
      uc_lower = (\<lambda>s. map ascii_lower s),
      uc_title = (\<lambda>s. example_title_from False s)\<rparr>"

text \<open>A row with a malformed email, a short line that leaves the phone unset, and no company column.\<close>

definition example_row :: raw_row where
  "example_row =
     [ustr ''name'' \<mapsto> Some (ustr ''  amy-walker   jones ''),
      ustr ''email'' \<mapsto> Some (ustr '' AMY@Example ''),
      ustr ''phone'' \<mapsto> None]"

definition mk_contact :: "string \<Rightarrow> string \<Rightarrow> string \<Rightarrow> string \<Rightarrow> contact" where
  "mk_contact n e p c = \<lparr>name = ustr n, email = ustr e, phone = ustr p, company = ustr c\<rparr>"

text \<open>
  Five cleaned records with their identities: three share an email (the
  second of them is more complete than the first, the third ties with the
  second), two have no email and are equal field for field.
\<close>

definition example_contacts :: "(nat \<times> contact) list" where
  "example_contacts =
     [(4001, mk_contact ''Amy'' ''a@b.com'' [] []),
      (4002, mk_contact ''Bob'' [] ''07123456789'' []),
      (4003, mk_contact ''Amy'' ''a@b.com'' ''07123456789'' []),
      (4004, mk_contact ''Bob'' [] ''07123456789'' []),
      (4005, mk_contact ''Amy B'' ''a@b.com'' ''07000000000'' [])]"

definition example_world :: world where
  "example_world =
     \<lparr>files = [ustr ''data/contacts_raw.csv'' \<mapsto> Text (ustr ''name,email''),
               ustr ''data'' \<mapsto> Unreadable],
      opened = []\<rparr>"

section \<open>Whitespace normalisation and filters\<close>

lemma is_space_blank: "is_space db (ord CHR '' '')"
  by (simp add: is_space_def)

lemma filter_dropWhile_reject:
  "(\<And>c. Q c \<Longrightarrow> \<not> P c) \<Longrightarrow> filter P (dropWhile Q s) = filter P s"
  by (induction s) auto

lemma filter_strip:
  assumes "\<And>c. is_space db c \<Longrightarrow> \<not> P c"
  shows "filter P (strip db s) = filter P s"
proof -
  have "filter P (strip db s) =
          rev (filter P (dropWhile (is_space db) (rev (dropWhile (is_space db) s))))"
    by (simp add: strip_def rev_filter)
  also have "\<dots> = rev (filter P (rev (dropWhile (is_space db) s)))"
    using assms by (simp add: filter_dropWhile_reject)
  also have "\<dots> = filter P (dropWhile (is_space db) s)"
    by (simp add: rev_filter)
  also have "\<dots> = filter P s"
    using assms by (simp add: filter_dropWhile_reject)
  finally show ?thesis .
qed

lemma filter_collapse_spaces:
  "(\<And>c. is_space db c \<Longrightarrow> \<not> P c) \<Longrightarrow> filter P (collapse_spaces db s) = filter P s"
proof (induction db s rule: collapse_spaces.induct)
  case (1 db)
  then show ?case by simp
next
  case (2 db c cs)
  show ?case
  proof (cases "is_space db c")
    case True
    have "\<not> P (ord CHR '' '')" using 2(3) is_space_blank by blast
    moreover have "\<not> P c" using True 2(3) by blast
    moreover have "filter P (collapse_spaces db (dropWhile (is_space db) cs)) = filter P cs"
      using 2(1)[OF True] 2(3) by (simp add: filter_dropWhile_reject)
    ultimately show ?thesis using True by simp
  next
    case False
    then show ?thesis using 2(2) 2(3) by simp
  qed
qed

lemma filter_normalise_spaces:
  "(\<And>c. is_space db c \<Longrightarrow> \<not> P c) \<Longrightarrow> filter P (normalise_spaces db (Some s)) = filter P s"
  by (simp add: normalise_spaces_def filter_collapse_spaces filter_strip)

section \<open>Phone numbers\<close>

lemma keep_digits_plus_normalise:
  assumes "\<forall>c. is_space db c \<longrightarrow> \<not> is_decimal db c"
  shows "keep_digits_plus db (normalise_spaces db (Some s)) = keep_digits_plus db s"
  unfolding keep_digits_plus_def
proof (rule filter_normalise_spaces)
  fix c assume "is_space db c"
  moreover have "\<not> is_space db (ord CHR ''+'')" by (simp add: is_space_def)
  ultimately show "\<not> (is_decimal db c \<or> c = ord CHR ''+'')" using assms by auto
qed

text \<open>
  C3. With a character table in which no whitespace character is a decimal
  digit, \<^verbatim>\<open>clean_phone\<close> works on the input with everything but digits and \<^verbatim>\<open>+\<close>
  removed: if that string starts with \<^verbatim>\<open>+44\<close> the result is \<^verbatim>\<open>0\<close> followed by the
  digits of the rest, and in every other case it is the digits of that string;
  the result has only digits; a string that starts with \<^verbatim>\<open>0044\<close> is left as its
  digits, \<^verbatim>\<open>0044\<close> in front; and the two examples of the specification hold.
\<close>

theorem clean_phone_rewrite:
  assumes "\<forall>c. is_space db c \<longrightarrow> \<not> is_decimal db c"
  shows "clean_phone db (Some s) =
           (if prefix (ustr ''+44'') (keep_digits_plus db s)
            then ord CHR ''0'' # filter (is_decimal db) (drop 3 (keep_digits_plus db s))
            else filter (is_decimal db) (keep_digits_plus db s))
         \<and> list_all (is_decimal db) (clean_phone db (Some s))
         \<and> (prefix (ustr ''0044'') (keep_digits_plus db s) \<longrightarrow>
              clean_phone db (Some s) = filter (is_decimal db) s
              \<and> prefix (ustr ''0044'') (clean_phone db (Some s)))
         \<and> clean_phone db (Some (ustr ''+44 7700 900123'')) = ustr ''07700900123''
         \<and> clean_phone db (Some (ustr ''0044 7700 900123'')) = ustr ''00447700900123''"
proof -
  let ?k = "keep_digits_plus db s"
  have zero: "is_decimal db (ord CHR ''0'')" by (simp add: is_decimal_def)
  have eq: "clean_phone db (Some s) =
           (if prefix (ustr ''+44'') ?k
            then ord CHR ''0'' # filter (is_decimal db) (drop 3 ?k)
            else filter (is_decimal db) ?k)"
    using zero by (simp add: clean_phone_def keep_digits_plus_normalise[OF assms] Let_def)
  have all: "list_all (is_decimal db) (clean_phone db (Some s))"
    by (simp add: clean_phone_def Let_def list_all_iff)
  have fk: "filter (is_decimal db) ?k = filter (is_decimal db) s"
    by (simp add: keep_digits_plus_def) (metis (mono_tags, lifting) filter_cong)
  have z: "prefix (ustr ''0044'') ?k \<Longrightarrow> \<not> prefix (ustr ''+44'') ?k"
    by (auto simp: ustr_def prefix_def)
  have p: "prefix (ustr ''0044'') ?k \<Longrightarrow> prefix (ustr ''0044'') (filter (is_decimal db) ?k)"
    by (auto simp: ustr_def prefix_def is_decimal_def)
  have e1: "clean_phone db (Some (ustr ''+44 7700 900123'')) = ustr ''07700900123''"
    by (simp add: ustr_def clean_phone_def normalise_spaces_def strip_def keep_digits_plus_def
        is_space_def is_decimal_def)
  have e2: "clean_phone db (Some (ustr ''0044 7700 900123'')) = ustr ''00447700900123''"
    by (simp add: ustr_def clean_phone_def normalise_spaces_def strip_def keep_digits_plus_def
        is_space_def is_decimal_def)
  show ?thesis using eq all fk z p e1 e2 by simp
qed

theorem clean_phone_rewrite_witness:
  "\<not> (\<exists>c. is_space example_db c \<and> is_decimal example_db c)
   \<and> prefix (ustr ''+44'') (keep_digits_plus example_db (ustr ''(+44) 20-7946 0018''))
   \<and> clean_phone example_db (Some (ustr ''(+44) 20-7946 0018'')) = ustr ''02079460018''
   \<and> prefix (ustr ''0044'') (keep_digits_plus example_db (ustr ''0044 20+7946''))
   \<and> clean_phone example_db (Some (ustr ''0044 20+7946'')) = ustr ''0044207946''"
proof -
  have h: "\<forall>c. is_space example_db c \<longrightarrow> \<not> is_decimal example_db c"
    by (simp add: is_space_def is_decimal_def example_db_def)
  have a: "keep_digits_plus example_db (ustr ''(+44) 20-7946 0018'') = ustr ''+442079460018''"
    by (simp add: keep_digits_plus_def ustr_def is_decimal_def)
  have b: "keep_digits_plus example_db (ustr ''0044 20+7946'') = ustr ''004420+7946''"
    by (simp add: keep_digits_plus_def ustr_def is_decimal_def)
  have c: "filter (is_decimal example_db) (ustr ''0044 20+7946'') = ustr ''0044207946''"
    by (simp add: ustr_def is_decimal_def)
  have "\<not> (\<exists>c. is_space example_db c \<and> is_decimal example_db c)"
    using h by blast
  then show ?thesis
    using clean_phone_rewrite [OF h, of "ustr ''(+44) 20-7946 0018''"]
      clean_phone_rewrite [OF h, of "ustr ''0044 20+7946''"]
    by (simp add: a b c) (simp add: ustr_def is_decimal_def)
qed

section \<open>The statistics pass\<close>

text \<open>
  C8. For every row and every state of the counters, the pass over that row
  adds one to \<^verbatim>\<open>missing_email\<close> exactly when the cleaned email is empty and one to
  \<^verbatim>\<open>invalid_email\<close> exactly when the cleaned email is not empty and fails
  \<^verbatim>\<open>is_valid_email\<close>, so never to both; the same holds for \<^verbatim>\<open>missing_phone\<close> and
  \<^verbatim>\<open>invalid_phone\<close> with \<^verbatim>\<open>is_valid_uk_phone\<close>.
\<close>

theorem count_row_exclusive:
  "(let cleaned = fst (count_row db st row); st' = snd (count_row db st row)
    in cleaned = clean_contact db row
     \<and> missing_email st' = missing_email st + (if email cleaned = [] then 1 else 0)
     \<and> invalid_email st' = invalid_email st +
          (if email cleaned \<noteq> [] \<and> \<not> is_valid_email db (email cleaned) then 1 else 0)
     \<and> missing_phone st' = missing_phone st + (if phone cleaned = [] then 1 else 0)
     \<and> invalid_phone st' = invalid_phone st +
          (if phone cleaned \<noteq> [] \<and> \<not> is_valid_uk_phone db (phone cleaned) then 1 else 0)
     \<and> \<not> (missing_email st < missing_email st' \<and> invalid_email st < invalid_email st')
     \<and> \<not> (missing_phone st < missing_phone st' \<and> invalid_phone st < invalid_phone st'))"
  by (simp add: count_row_def Let_def)

lemmas cleaners = ustr_def clean_contact_def row_get_def clean_name_def clean_email_def
  clean_phone_def clean_company_def normalise_spaces_def strip_def is_space_def is_decimal_def
  keep_digits_plus_def clean_word_def capitalise_part_def py_upper_def py_lower_def py_title_def
  is_ascii_def ascii_upper_def ascii_lower_def is_ascii_letter_def

lemma example_row_cleaned:
  "clean_contact example_db example_row
     = \<lparr>name = ustr ''Amy-Walker Jones'', email = ustr ''amy@example'', phone = [], company = []\<rparr>"
  by (simp add: example_row_def cleaners)

lemma example_email_invalid: "\<not> is_valid_email example_db (ustr ''amy@example'')"
  by (simp add: is_valid_email_def email_pattern_def not_at_or_space_def ustr_def strip_def
      is_space_def)

theorem count_row_exclusive_witness:
  "invalid_email (snd (count_row example_db initial_stats example_row)) = 1
   \<and> missing_email (snd (count_row example_db initial_stats example_row)) = 0
   \<and> missing_phone (snd (count_row example_db initial_stats example_row)) = 1
   \<and> invalid_phone (snd (count_row example_db initial_stats example_row)) = 0"
  using count_row_exclusive [of example_db initial_stats example_row]
    example_row_cleaned example_email_invalid
  by (simp add: Let_def initial_stats_def) (simp add: ustr_def)

section \<open>Loading\<close>

text \<open>
  C9. For a path that does not exist, \<^verbatim>\<open>load_contacts\<close> raises the error
  \<^verbatim>\<open>IOError\<close> with the message \<^verbatim>\<open>Contacts file not found: \<close> followed by the path, and
  has opened nothing; for a path that holds a readable text it opens that path
  and returns what the parser makes of the text; and it raises this error for
  no path that exists.
\<close>

theorem load_contacts_result:
  "(\<not> exists w path \<longrightarrow>
      load_contacts PY2 dict_reader w path
        = (Inl (IOError (ustr ''Contacts file not found: '' @ path)), w)
      \<and> suffix path (ustr ''Contacts file not found: '' @ path))
   \<and> (files w path = Some (Text t) \<longrightarrow>
        load_contacts PY2 dict_reader w path
          = (case dict_reader t of None \<Rightarrow> Inl CsvError | Some rows \<Rightarrow> Inr rows,
             w\<lparr>opened := opened w @ [path]\<rparr>))
   \<and> ((\<exists>msg. fst (load_contacts PY2 dict_reader w path) = Inl (IOError msg))
        \<longleftrightarrow> \<not> exists w path)"
  by (auto simp: load_contacts_def open_csv_read_def open_file_def exists_def Let_def suffix_def
      split: option.splits fs_entry.splits)

theorem load_contacts_result_witness:
  "load_contacts False (\<lambda>t. Some []) example_world (ustr ''contacts.csv'')
     = (Inl (IOError (ustr ''Contacts file not found: contacts.csv'')), example_world)
   \<and> load_contacts False (\<lambda>t. Some []) example_world (ustr ''data/contacts_raw.csv'')
     = (Inr [], example_world\<lparr>opened := [ustr ''data/contacts_raw.csv'']\<rparr>)"
proof -
  have a: "\<not> exists example_world (ustr ''contacts.csv'')"
    by (simp add: exists_def example_world_def ustr_def)
  have b: "files example_world (ustr ''data/contacts_raw.csv'') = Some (Text (ustr ''name,email''))"
    by (simp add: example_world_def ustr_def)
  show ?thesis
    using a b
      load_contacts_result [of example_world "ustr ''contacts.csv''" False "\<lambda>t. Some []"]
      load_contacts_result [of example_world "ustr ''data/contacts_raw.csv''" False
        "\<lambda>t. Some []" "ustr ''name,email''"]
    by (simp add: example_world_def) (simp add: ustr_def)
qed

section \<open>Deduplication\<close>

lemma values_update:
  "snd ` set (AList.update k v al) \<subseteq> insert v (snd ` set al)"
  by (induction al) auto

lemma dedupe_step_store:
  "deduped (dedupe_step st (i, c)) = deduped st
   \<or> (\<exists>k. deduped (dedupe_step st (i, c)) = AList.update k c (deduped st))"
  by (auto simp: dedupe_step_def Let_def split: option.splits)

lemma dedupe_step_values:
  "snd ` set (deduped (dedupe_step st ic)) \<subseteq> insert (snd ic) (snd ` set (deduped st))"
proof -
  obtain i c where ic: "ic = (i, c)" by (cases ic)
  from dedupe_step_store [of st i c] show ?thesis
  proof
    assume "deduped (dedupe_step st (i, c)) = deduped st"
    then show ?thesis by (auto simp: ic)
  next
    assume "\<exists>k. deduped (dedupe_step st (i, c)) = AList.update k c (deduped st)"
    then obtain k where "deduped (dedupe_step st (i, c)) = AList.update k c (deduped st)" ..
    then show ?thesis using values_update [of k c "deduped st"] by (simp add: ic)
  qed
qed

lemma dedupe_from_values:
  "snd ` set (deduped (dedupe_from st cs)) \<subseteq> snd ` set (deduped st) \<union> snd ` set cs"
proof (induction cs arbitrary: st)
  case Nil
  then show ?case by (simp add: dedupe_from_def)
next
  case (Cons ic cs)
  have "snd ` set (deduped (dedupe_from (dedupe_step st ic) cs))
          \<subseteq> snd ` set (deduped (dedupe_step st ic)) \<union> snd ` set cs"
    by (rule Cons.IH)
  also have "\<dots> \<subseteq> insert (snd ic) (snd ` set (deduped st)) \<union> snd ` set cs"
    using dedupe_step_values [of st ic] by blast
  finally show ?case by (auto simp: dedupe_from_def)
qed

text \<open>
  C10. Every record of the deduplicated output is one of the input records,
  whole: the loop stores input records and builds no record of its own.
\<close>

theorem dedupe_selects_records:
  "\<forall>c \<in> set (deduped_contacts (dedupe cs)). c \<in> snd ` set cs"
  using dedupe_from_values [of "\<lparr>deduped = [], duplicates_removed = 0\<rparr>" cs]
  by (auto simp: dedupe_def deduped_contacts_def)

lemma example_deduped:
  "deduped_contacts (dedupe example_contacts)
     = [mk_contact ''Amy'' ''a@b.com'' ''07123456789'' [],
        mk_contact ''Bob'' [] ''07123456789'' [],
        mk_contact ''Bob'' [] ''07123456789'' []]
   \<and> duplicates_removed (dedupe example_contacts) = 2"
  by (simp add: dedupe_def dedupe_from_def dedupe_step_def deduped_contacts_def example_contacts_def
      mk_contact_def ustr_def noemail_key_def decimal.simps completeness_score_def)

theorem dedupe_selects_records_witness:
  "mk_contact ''Amy'' ''a@b.com'' ''07123456789'' [] \<in> set (deduped_contacts (dedupe example_contacts))
   \<and> mk_contact ''Amy'' ''a@b.com'' ''07123456789'' [] \<in> snd ` set example_contacts"
proof -
  have "mk_contact ''Amy'' ''a@b.com'' ''07123456789'' [] \<in> set (deduped_contacts (dedupe example_contacts))"
    by (simp add: example_deduped)
  then show ?thesis using dedupe_selects_records [of example_contacts] by blast
qed

subsection \<open>Keys of the store\<close>

lemma dedupe_from_Nil: "dedupe_from st [] = st"
  by (simp add: dedupe_from_def)

lemma dedupe_from_Cons: "dedupe_from st (ic # cs) = dedupe_from (dedupe_step st ic) cs"
  by (simp add: dedupe_from_def)

lemma dedupe_from_append: "dedupe_from st (xs @ ys) = dedupe_from (dedupe_from st xs) ys"
  by (simp add: dedupe_from_def)

lemma map_of_Some_key: "map_of al k = Some v \<Longrightarrow> k \<in> set (map fst al)"
  by (metis map_of_eq_None_iff option.distinct(1) set_map)

lemma dedupe_step_keys:
  "map fst (deduped (dedupe_step st ic)) =
     (if key_of ic \<in> set (map fst (deduped st)) then map fst (deduped st)
      else map fst (deduped st) @ [key_of ic])"
proof (cases ic)
  case (Pair i c)
  show ?thesis
  proof (cases "email c = []")
    case True
    then show ?thesis by (simp add: Pair dedupe_step_def key_of_def update_keys)
  next
    case False
    show ?thesis
    proof (cases "map_of (deduped st) (email c)")
      case None
      then show ?thesis using False by (simp add: Pair dedupe_step_def key_of_def update_keys)
    next
      case (Some existing)
      then have "email c \<in> set (map fst (deduped st))" by (rule map_of_Some_key)
      then show ?thesis using False Some
        by (simp add: Pair dedupe_step_def key_of_def update_keys Let_def)
    qed
  qed
qed

lemma dedupe_step_distinct:
  "distinct (map fst (deduped st)) \<Longrightarrow> distinct (map fst (deduped (dedupe_step st ic)))"
  by (simp add: dedupe_step_keys)

lemma dedupe_from_distinct:
  "distinct (map fst (deduped st)) \<Longrightarrow> distinct (map fst (deduped (dedupe_from st cs)))"
  by (induction cs arbitrary: st) (simp_all add: dedupe_from_Nil dedupe_from_Cons dedupe_step_distinct)

lemma dedupe_from_key_set:
  "set (map fst (deduped (dedupe_from st cs))) = set (map fst (deduped st)) \<union> key_of ` set cs"
proof (induction cs arbitrary: st)
  case Nil
  then show ?case by (simp add: dedupe_from_Nil)
next
  case (Cons ic cs)
  have "set (map fst (deduped (dedupe_step st ic))) = insert (key_of ic) (set (map fst (deduped st)))"
    by (auto simp: dedupe_step_keys)
  then show ?case using Cons.IH [of "dedupe_step st ic"] by (simp add: dedupe_from_Cons)
qed

lemma dedupe_from_keys_prefix:
  "prefix (map fst (deduped st)) (map fst (deduped (dedupe_from st cs)))"
proof (induction cs arbitrary: st)
  case Nil
  then show ?case by (simp add: dedupe_from_Nil)
next
  case (Cons ic cs)
  have "prefix (map fst (deduped st)) (map fst (deduped (dedupe_step st ic)))"
    by (simp add: dedupe_step_keys)
  moreover have "prefix (map fst (deduped (dedupe_step st ic)))
      (map fst (deduped (dedupe_from (dedupe_step st ic) cs)))"
    by (rule Cons.IH)
  ultimately show ?case
    unfolding dedupe_from_Cons by (rule prefix_order.trans)
qed

lemma dedupe_step_other_key:
  assumes "key_of ic \<noteq> k"
  shows "map_of (deduped (dedupe_step st ic)) k = map_of (deduped st) k"
proof (cases ic)
  case (Pair i c)
  show ?thesis
  proof (cases "email c = []")
    case True
    then have "noemail_key i \<noteq> k" using assms by (simp add: Pair key_of_def)
    then show ?thesis using True by (simp add: Pair dedupe_step_def update_conv')
  next
    case False
    then have k: "email c \<noteq> k" using assms by (simp add: Pair key_of_def)
    show ?thesis
    proof (cases "map_of (deduped st) (email c)")
      case None
      then show ?thesis using False k by (simp add: Pair dedupe_step_def update_conv')
    next
      case (Some existing)
      then show ?thesis using False k by (simp add: Pair dedupe_step_def update_conv' Let_def)
    qed
  qed
qed

lemma dedupe_from_other_keys:
  "k \<notin> key_of ` set cs \<Longrightarrow> map_of (deduped (dedupe_from st cs)) k = map_of (deduped st) k"
proof (induction cs arbitrary: st)
  case Nil
  then show ?case by (simp add: dedupe_from_Nil)
next
  case (Cons ic cs)
  then have "key_of ic \<noteq> k" and "k \<notin> key_of ` set cs" by auto
  then show ?case using Cons.IH [of "dedupe_step st ic"]
    by (simp add: dedupe_from_Cons dedupe_step_other_key)
qed

subsection \<open>Keys of records without email\<close>

lemma decimal_digit: "n < 10 \<Longrightarrow> decimal n = [48 + n]"
  by (simp add: decimal.simps)

lemma decimal_snoc: "10 \<le> n \<Longrightarrow> decimal n = decimal (n div 10) @ [48 + n mod 10]"
  by (subst decimal.simps) simp

lemma decimal_nonempty: "decimal n \<noteq> []"
  by (cases "n < 10") (simp_all add: decimal_digit decimal_snoc)

lemma decimal_inj: "decimal m = decimal n \<Longrightarrow> m = n"
proof (induction m arbitrary: n rule: decimal.induct)
  case (1 m)
  show ?case
  proof (cases "m < 10")
    case True
    show ?thesis
    proof (cases "n < 10")
      case True
      with \<open>m < 10\<close> 1(2) show ?thesis by (simp add: decimal_digit)
    next
      case False
      then have "decimal n = decimal (n div 10) @ [48 + n mod 10]" by (simp add: decimal_snoc)
      with True 1(2) have "[48 + m] = decimal (n div 10) @ [48 + n mod 10]"
        by (simp add: decimal_digit)
      then have "decimal (n div 10) = []" by (metis butlast.simps(2) butlast_snoc)
      then show ?thesis by (simp add: decimal_nonempty)
    qed
  next
    case False
    then have m: "decimal m = decimal (m div 10) @ [48 + m mod 10]" by (simp add: decimal_snoc)
    show ?thesis
    proof (cases "n < 10")
      case True
      with m 1(2) have "decimal (m div 10) @ [48 + m mod 10] = [48 + n]"
        by (simp add: decimal_digit)
      then have "decimal (m div 10) = []" by (metis butlast.simps(2) butlast_snoc)
      then show ?thesis by (simp add: decimal_nonempty)
    next
      case False
      then have n: "decimal n = decimal (n div 10) @ [48 + n mod 10]" by (simp add: decimal_snoc)
      from m n 1(2) have "decimal (m div 10) = decimal (n div 10)" and "m mod 10 = n mod 10"
        by simp_all
      with 1(1) [OF \<open>\<not> m < 10\<close>] have "m div 10 = n div 10" by blast
      with \<open>m mod 10 = n mod 10\<close> show ?thesis by (metis div_mult_mod_eq)
    qed
  qed
qed

lemma noemail_key_inj: "noemail_key i = noemail_key j \<Longrightarrow> i = j"
  by (simp add: noemail_key_def decimal_inj)

lemma noemail_key_prefix: "prefix (ustr ''NOEMAIL_'') (noemail_key i)"
  by (simp add: noemail_key_def)

lemma key_of_email:
  assumes "e \<noteq> []" and "\<not> prefix (ustr ''NOEMAIL_'') e" and "email (snd ic) \<noteq> e"
  shows "key_of ic \<noteq> e"
  using assms noemail_key_prefix [of "fst ic"] by (auto simp: key_of_def)

subsection \<open>The number of rows\<close>

lemma dedupe_keys_distinct: "distinct (map fst (deduped (dedupe cs)))"
  unfolding dedupe_def by (rule dedupe_from_distinct) simp

lemma dedupe_key_set: "set (map fst (deduped (dedupe cs))) = key_of ` set cs"
  using dedupe_from_key_set [of "\<lparr>deduped = [], duplicates_removed = 0\<rparr>" cs]
  by (simp add: dedupe_def)

lemma dedupe_length: "length (deduped (dedupe cs)) = card (key_of ` set cs)"
proof -
  have "length (deduped (dedupe cs)) = length (map fst (deduped (dedupe cs)))" by simp
  also have "\<dots> = card (set (map fst (deduped (dedupe cs))))"
    using dedupe_keys_distinct [of cs] by (simp only: distinct_card)
  finally show ?thesis by (simp only: dedupe_key_set)
qed

lemma key_image_split:
  "key_of ` set cs =
     set (filter (\<lambda>e. e \<noteq> []) (map (\<lambda>ic. email (snd ic)) cs))
     \<union> noemail_key ` fst ` set (filter (\<lambda>ic. email (snd ic) = []) cs)"
  by (auto simp: key_of_def image_iff)

lemma card_noemail_keys:
  assumes "distinct (map fst cs)"
  shows "card (noemail_key ` fst ` set (filter P cs)) = length (filter P cs)"
proof -
  have "inj_on noemail_key (fst ` set (filter P cs))"
    by (rule inj_onI) (rule noemail_key_inj)
  then have "card (noemail_key ` fst ` set (filter P cs)) = card (fst ` set (filter P cs))"
    by (rule card_image)
  also have "\<dots> = card (set (map fst (filter P cs)))" by simp
  also have "\<dots> = length (map fst (filter P cs))"
    using assms by (intro distinct_card distinct_map_filter)
  finally show ?thesis by simp
qed

lemma dedupe_count:
  assumes ids: "distinct (map fst cs)"
    and plain: "\<forall>ic \<in> set cs. \<not> prefix (ustr ''NOEMAIL_'') (email (snd ic))"
  shows "length (deduped_contacts (dedupe cs)) =
           card (set (filter (\<lambda>e. e \<noteq> []) (map (\<lambda>ic. email (snd ic)) cs)))
           + length (filter (\<lambda>ic. email (snd ic) = []) cs)"
proof -
  let ?E = "set (filter (\<lambda>e. e \<noteq> []) (map (\<lambda>ic. email (snd ic)) cs))"
  let ?N = "noemail_key ` fst ` set (filter (\<lambda>ic. email (snd ic) = []) cs)"
  have disj: "?E \<inter> ?N = {}"
  proof (rule ccontr)
    assume "?E \<inter> ?N \<noteq> {}"
    then obtain k where "k \<in> ?E" and "k \<in> ?N" by blast
    from \<open>k \<in> ?N\<close> have "prefix (ustr ''NOEMAIL_'') k" using noemail_key_prefix by auto
    moreover from \<open>k \<in> ?E\<close> have "\<not> prefix (ustr ''NOEMAIL_'') k" using plain by auto
    ultimately show False by blast
  qed
  have "length (deduped_contacts (dedupe cs)) = card (?E \<union> ?N)"
    by (simp add: deduped_contacts_def dedupe_length key_image_split)
  also have "\<dots> = card ?E + card ?N"
    using disj by (intro card_Un_disjoint) simp_all
  also have "card ?N = length (filter (\<lambda>ic. email (snd ic) = []) cs)"
    using ids by (rule card_noemail_keys)
  finally show ?thesis .
qed

lemma dedupe_append: "dedupe (xs @ ys) = dedupe_from (dedupe xs) ys"
  by (simp add: dedupe_def dedupe_from_append)

lemma dedupe_snoc: "dedupe (xs @ [ic]) = dedupe_step (dedupe xs) ic"
  by (simp add: dedupe_append dedupe_from_Cons dedupe_from_Nil)

lemma dedupe_keeps_noemail:
  assumes ids: "distinct (map fst cs)"
    and plain: "\<forall>ic \<in> set cs. \<not> prefix (ustr ''NOEMAIL_'') (email (snd ic))"
    and ic: "ic \<in> set cs" and empty: "email (snd ic) = []"
  shows "(noemail_key (fst ic), snd ic) \<in> set (deduped (dedupe cs))"
proof -
  from ic obtain xs ys where cs: "cs = xs @ ic # ys" by (auto dest: split_list)
  let ?k = "noemail_key (fst ic)"
  have step: "map_of (deduped (dedupe_step (dedupe xs) ic)) ?k = Some (snd ic)"
    using empty by (cases ic) (simp add: dedupe_step_def update_conv')
  have "?k \<notin> key_of ` set ys"
  proof
    assume "?k \<in> key_of ` set ys"
    then obtain jc where jc: "jc \<in> set ys" and k: "key_of jc = ?k" by auto
    show False
    proof (cases "email (snd jc) = []")
      case True
      then have "fst jc = fst ic" using k noemail_key_inj by (simp add: key_of_def)
      moreover have "fst jc \<in> fst ` set ys" using jc by (rule imageI)
      moreover have "fst ic \<notin> fst ` set ys" using ids by (simp add: cs)
      ultimately show False by simp
    next
      case False
      then have "email (snd jc) = ?k" using k by (simp add: key_of_def)
      moreover have "\<not> prefix (ustr ''NOEMAIL_'') (email (snd jc))"
        using plain jc by (simp add: cs)
      ultimately show False using noemail_key_prefix [of "fst ic"] by simp
    qed
  qed
  then have "map_of (deduped (dedupe_from (dedupe_step (dedupe xs) ic) ys)) ?k = Some (snd ic)"
    using step by (simp add: dedupe_from_other_keys)
  moreover have "dedupe cs = dedupe_from (dedupe_step (dedupe xs) ic) ys"
    by (simp add: cs dedupe_append dedupe_from_Cons)
  ultimately have "map_of (deduped (dedupe cs)) ?k = Some (snd ic)" by simp
  then show ?thesis by (rule map_of_SomeD)
qed

text \<open>
  C4. For records with pairwise distinct identities whose emails do not start
  with \<^verbatim>\<open>NOEMAIL_\<close> (a cleaned email is lower-cased, so it does not), the
  deduplicated output has as many rows as there are distinct non-empty emails
  plus records without email; and every record without email is in the store
  under the key made from its own identity, whatever the other records are.
\<close>

theorem dedupe_row_count:
  assumes "distinct (map fst cs)"
    and "\<forall>ic \<in> set cs. \<not> prefix (ustr ''NOEMAIL_'') (email (snd ic))"
  shows "length (deduped_contacts (dedupe cs)) =
           card (set (filter (\<lambda>e. e \<noteq> []) (map (\<lambda>ic. email (snd ic)) cs)))
           + length (filter (\<lambda>ic. email (snd ic) = []) cs)
         \<and> (\<forall>ic \<in> set cs. email (snd ic) = [] \<longrightarrow>
               (noemail_key (fst ic), snd ic) \<in> set (deduped (dedupe cs)))"
  using dedupe_count [OF assms] dedupe_keeps_noemail [OF assms] by blast

theorem dedupe_row_count_witness:
  "distinct (map fst example_contacts)
   \<and> length (deduped_contacts (dedupe example_contacts)) = 1 + 2
   \<and> (noemail_key 4002, mk_contact ''Bob'' [] ''07123456789'' []) \<in> set (deduped (dedupe example_contacts))
   \<and> (noemail_key 4004, mk_contact ''Bob'' [] ''07123456789'' []) \<in> set (deduped (dedupe example_contacts))"
proof -
  have ids: "distinct (map fst example_contacts)" by (simp add: example_contacts_def)
  have plain: "\<forall>ic \<in> set example_contacts. \<not> prefix (ustr ''NOEMAIL_'') (email (snd ic))"
    by (simp add: example_contacts_def mk_contact_def ustr_def)
  have n: "card (set (filter (\<lambda>e. e \<noteq> []) (map (\<lambda>ic. email (snd ic)) example_contacts))) = 1"
    by (simp add: example_contacts_def mk_contact_def ustr_def)
  have m: "length (filter (\<lambda>ic. email (snd ic) = []) example_contacts) = 2"
    by (simp add: example_contacts_def mk_contact_def ustr_def)
  have b1: "(4002, mk_contact ''Bob'' [] ''07123456789'' []) \<in> set example_contacts"
    and b2: "(4004, mk_contact ''Bob'' [] ''07123456789'' []) \<in> set example_contacts"
    by (simp_all add: example_contacts_def)
  have e: "email (mk_contact ''Bob'' [] ''07123456789'' []) = []"
    by (simp add: mk_contact_def ustr_def)
  from dedupe_row_count [OF ids plain] b1 b2 e n m ids show ?thesis by fastforce
qed

subsection \<open>Ties and replacements\<close>

lemma update_new_key: "k \<notin> fst ` set al \<Longrightarrow> AList.update k v al = al @ [(k, v)]"
  by (induction al) auto

lemma dedupe_step_tie:
  assumes "map_of (deduped st) (email c) = Some a" and "email c \<noteq> []"
    and "completeness_score c \<le> completeness_score a"
  shows "dedupe_step st (i, c) = st\<lparr>duplicates_removed := duplicates_removed st + 1\<rparr>"
  using assms by (simp add: dedupe_step_def Let_def)

lemma dedupe_step_replace:
  assumes "map_of (deduped st) (email c) = Some a" and "email c \<noteq> []"
    and "completeness_score a < completeness_score c"
  shows "dedupe_step st (i, c) =
           st\<lparr>deduped := AList.update (email c) c (deduped st),
              duplicates_removed := duplicates_removed st + 1\<rparr>"
  using assms by (simp add: dedupe_step_def Let_def)

lemma dedupe_step_first:
  assumes "email c \<noteq> []" and "email c \<notin> fst ` set (deduped st)"
  shows "dedupe_step st (i, c) = st\<lparr>deduped := deduped st @ [(email c, c)]\<rparr>"
proof -
  have "map_of (deduped st) (email c) = None" using assms(2) by (simp add: map_of_eq_None_iff)
  then show ?thesis using assms by (simp add: dedupe_step_def update_new_key)
qed

lemma stored_kept:
  assumes "map_of (deduped st) e = Some a" and "e \<noteq> []"
    and "\<not> prefix (ustr ''NOEMAIL_'') e"
    and "\<forall>ic \<in> set cs. email (snd ic) = e \<longrightarrow> completeness_score (snd ic) \<le> completeness_score a"
  shows "map_of (deduped (dedupe_from st cs)) e = Some a"
  using assms
proof (induction cs arbitrary: st)
  case Nil
  then show ?case by (simp add: dedupe_from_Nil)
next
  case (Cons ic cs)
  obtain i c where ic: "ic = (i, c)" by (cases ic)
  have "map_of (deduped (dedupe_step st ic)) e = Some a"
  proof (cases "email c = e")
    case True
    then have "completeness_score c \<le> completeness_score a" using Cons.prems(4) by (simp add: ic)
    then have "dedupe_step st (i, c) = st\<lparr>duplicates_removed := duplicates_removed st + 1\<rparr>"
      using Cons.prems(1,2) True dedupe_step_tie [of st c a i] by simp
    then show ?thesis using Cons.prems(1) by (simp add: ic)
  next
    case False
    then have "key_of ic \<noteq> e" using Cons.prems(2,3) by (intro key_of_email) (simp_all add: ic)
    then show ?thesis using Cons.prems(1) by (simp add: dedupe_step_other_key)
  qed
  moreover have "\<forall>ic \<in> set cs. email (snd ic) = e \<longrightarrow>
      completeness_score (snd ic) \<le> completeness_score a"
    using Cons.prems(4) by simp
  ultimately have "map_of (deduped (dedupe_from (dedupe_step st ic) cs)) e = Some a"
    using Cons.prems(2,3) by (intro Cons.IH)
  then show ?case by (simp add: dedupe_from_Cons)
qed

lemma prefix_nth: "prefix xs ys \<Longrightarrow> n < length xs \<Longrightarrow> n < length ys \<and> ys ! n = xs ! n"
  by (auto simp: prefix_def nth_append)

lemma entry_at:
  assumes "distinct (map fst al)" and "n < length al" and "fst (al ! n) = k"
    and "map_of al k = Some v"
  shows "al ! n = (k, v)"
proof -
  have "al ! n \<in> set al" using assms(2) by simp
  then have "(k, snd (al ! n)) \<in> set al" using assms(3) by (metis prod.collapse)
  then have "map_of al k = Some (snd (al ! n))" using assms(1) by simp
  then have "snd (al ! n) = v" using assms(4) by simp
  then show ?thesis using assms(3) by (metis prod.collapse)
qed

lemma final_entry:
  assumes "n < length (deduped st)" and "fst (deduped st ! n) = e"
    and "distinct (map fst (deduped st))"
    and "map_of (deduped (dedupe_from st cs)) e = Some v"
  shows "n < length (deduped (dedupe_from st cs)) \<and> deduped (dedupe_from st cs) ! n = (e, v)"
proof -
  let ?al = "deduped (dedupe_from st cs)"
  have n: "n < length (map fst (deduped st))" using assms(1) by simp
  have p: "n < length (map fst ?al) \<and> map fst ?al ! n = map fst (deduped st) ! n"
    using dedupe_from_keys_prefix [of st cs] n by (rule prefix_nth)
  then have len: "n < length ?al" by simp
  then have "fst (?al ! n) = e" using p assms(1,2) by simp
  moreover have "distinct (map fst ?al)" using assms(3) by (rule dedupe_from_distinct)
  ultimately have "?al ! n = (e, v)" using len assms(4) by (intro entry_at)
  then show ?thesis using len by simp
qed

text \<open>The state after the first record with the email \<open>email a\<close>.\<close>

lemma first_seen:
  assumes "email a \<noteq> []" and "\<not> prefix (ustr ''NOEMAIL_'') (email a)"
    and "\<forall>ic \<in> set pre. email (snd ic) \<noteq> email a"
  shows "deduped (dedupe (pre @ [(ia, a)])) = deduped (dedupe pre) @ [(email a, a)]"
proof -
  have "email a \<notin> key_of ` set pre"
  proof
    assume "email a \<in> key_of ` set pre"
    then obtain ic where "ic \<in> set pre" and "key_of ic = email a" by auto
    moreover from \<open>ic \<in> set pre\<close> have "key_of ic \<noteq> email a"
      using assms by (intro key_of_email) simp_all
    ultimately show False by blast
  qed
  then have "email a \<notin> fst ` set (deduped (dedupe pre))"
    using dedupe_key_set [of pre] by simp
  then show ?thesis using assms(1) by (simp add: dedupe_snoc dedupe_step_first)
qed

lemma tie_scenario:
  assumes cs: "cs = pre @ (ia, a) # mid @ (ib, b) # post"
    and e: "email a \<noteq> []" "\<not> prefix (ustr ''NOEMAIL_'') (email a)"
    and b: "email b = email a" "completeness_score b = completeness_score a"
    and pre: "\<forall>ic \<in> set pre. email (snd ic) \<noteq> email a"
    and rest: "\<forall>ic \<in> set (mid @ post). email (snd ic) = email a \<longrightarrow>
                 completeness_score (snd ic) \<le> completeness_score a"
  shows "map_of (deduped (dedupe cs)) (email a) = Some a
       \<and> length (deduped (dedupe pre)) < length (deduped_contacts (dedupe cs))
       \<and> deduped_contacts (dedupe cs) ! length (deduped (dedupe pre)) = a
       \<and> a \<in> set (deduped_contacts (dedupe cs))
       \<and> dedupe (pre @ (ia, a) # mid @ [(ib, b)]) =
           (dedupe (pre @ (ia, a) # mid))
             \<lparr>duplicates_removed := duplicates_removed (dedupe (pre @ (ia, a) # mid)) + 1\<rparr>"
proof -
  let ?e = "email a"
  let ?n = "length (deduped (dedupe pre))"
  let ?S1 = "dedupe (pre @ [(ia, a)])"
  have S1: "deduped ?S1 = deduped (dedupe pre) @ [(?e, a)]"
    using e pre by (rule first_seen)
  have d1: "distinct (map fst (deduped ?S1))" by (rule dedupe_keys_distinct)
  have "(?e, a) \<in> set (deduped ?S1)" by (simp add: S1)
  with d1 have m1: "map_of (deduped ?S1) ?e = Some a" by (rule map_of_is_SomeI)
  have all: "\<forall>ic \<in> set (mid @ (ib, b) # post). email (snd ic) = ?e \<longrightarrow>
      completeness_score (snd ic) \<le> completeness_score a"
    using rest b by auto
  have split: "cs = (pre @ [(ia, a)]) @ (mid @ (ib, b) # post)" by (simp add: cs)
  have fin: "dedupe cs = dedupe_from ?S1 (mid @ (ib, b) # post)"
    by (subst split) (rule dedupe_append)
  have stored: "map_of (deduped (dedupe cs)) ?e = Some a"
    unfolding fin using m1 e all by (rule stored_kept)
  have "?n < length (deduped ?S1)" and "fst (deduped ?S1 ! ?n) = ?e" by (simp_all add: S1)
  then have pos: "?n < length (deduped (dedupe cs)) \<and> deduped (dedupe cs) ! ?n = (?e, a)"
    using d1 stored unfolding fin by (rule final_entry)
  then have at: "?n < length (deduped_contacts (dedupe cs))"
    "deduped_contacts (dedupe cs) ! ?n = a"
    by (simp_all add: deduped_contacts_def)
  then have mem: "a \<in> set (deduped_contacts (dedupe cs))" by (metis nth_mem)
  have S2: "dedupe (pre @ (ia, a) # mid) = dedupe_from ?S1 mid"
    using dedupe_append [of "pre @ [(ia, a)]" mid] by simp
  have "\<forall>ic \<in> set mid. email (snd ic) = ?e \<longrightarrow>
      completeness_score (snd ic) \<le> completeness_score a"
    using rest by auto
  with m1 e have m2: "map_of (deduped (dedupe (pre @ (ia, a) # mid))) ?e = Some a"
    unfolding S2 by (rule stored_kept)
  have "dedupe (pre @ (ia, a) # mid @ [(ib, b)]) = dedupe_step (dedupe (pre @ (ia, a) # mid)) (ib, b)"
    using dedupe_snoc [of "pre @ (ia, a) # mid" "(ib, b)"] by simp
  also have "\<dots> = (dedupe (pre @ (ia, a) # mid))
             \<lparr>duplicates_removed := duplicates_removed (dedupe (pre @ (ia, a) # mid)) + 1\<rparr>"
    using m2 e(1) b dedupe_step_tie [of "dedupe (pre @ (ia, a) # mid)" b a ib] by simp
  finally show ?thesis using stored at mem by simp
qed

lemma stored_below:
  assumes "map_of (deduped st) e = Some x" and "completeness_score x < k"
    and "\<forall>ic \<in> set cs. email (snd ic) = e \<longrightarrow> completeness_score (snd ic) < k"
    and "e \<noteq> []" and "\<not> prefix (ustr ''NOEMAIL_'') e"
  shows "\<exists>y. map_of (deduped (dedupe_from st cs)) e = Some y \<and> completeness_score y < k"
  using assms(1,2,3)
proof (induction cs arbitrary: st x)
  case Nil
  then show ?case by (simp add: dedupe_from_Nil)
next
  case (Cons ic cs)
  obtain i c where ic: "ic = (i, c)" by (cases ic)
  have "\<exists>y. map_of (deduped (dedupe_step st ic)) e = Some y \<and> completeness_score y < k"
  proof (cases "email c = e")
    case True
    then have c: "completeness_score c < k" using Cons.prems(3) by (simp add: ic)
    show ?thesis
    proof (cases "completeness_score x < completeness_score c")
      case True
      have "dedupe_step st (i, c) =
          st\<lparr>deduped := AList.update (email c) c (deduped st),
             duplicates_removed := duplicates_removed st + 1\<rparr>"
        using Cons.prems(1) assms(4) \<open>email c = e\<close> True dedupe_step_replace [of st c x i] by simp
      then have "map_of (deduped (dedupe_step st ic)) e = Some c"
        using \<open>email c = e\<close> by (simp add: ic update_conv')
      then show ?thesis using c by simp
    next
      case False
      then have "dedupe_step st (i, c) = st\<lparr>duplicates_removed := duplicates_removed st + 1\<rparr>"
        using Cons.prems(1) assms(4) \<open>email c = e\<close> dedupe_step_tie [of st c x i] by simp
      then show ?thesis using Cons.prems(1,2) by (simp add: ic)
    qed
  next
    case False
    then have "key_of ic \<noteq> e" using assms(4,5) by (intro key_of_email) (simp_all add: ic)
    then show ?thesis using Cons.prems(1,2) by (simp add: dedupe_step_other_key)
  qed
  then obtain y where "map_of (deduped (dedupe_step st ic)) e = Some y"
    and "completeness_score y < k" by blast
  moreover have "\<forall>ic \<in> set cs. email (snd ic) = e \<longrightarrow> completeness_score (snd ic) < k"
    using Cons.prems(3) by simp
  ultimately show ?case unfolding dedupe_from_Cons by (rule Cons.IH)
qed

lemma replace_scenario:
  assumes cs: "cs = pre @ (ia, a) # mid @ (ib, b) # post"
    and e: "email a \<noteq> []" "\<not> prefix (ustr ''NOEMAIL_'') (email a)"
    and b: "email b = email a" "completeness_score a < completeness_score b"
    and pre: "\<forall>ic \<in> set pre. email (snd ic) \<noteq> email a"
    and mid: "\<forall>ic \<in> set mid. email (snd ic) = email a \<longrightarrow>
                 completeness_score (snd ic) < completeness_score b"
    and post: "\<forall>ic \<in> set post. email (snd ic) = email a \<longrightarrow>
                 completeness_score (snd ic) \<le> completeness_score b"
  shows "deduped_contacts (dedupe (pre @ [(ia, a)])) ! length (deduped (dedupe pre)) = a
       \<and> length (deduped (dedupe pre)) < length (deduped_contacts (dedupe cs))
       \<and> deduped_contacts (dedupe cs) ! length (deduped (dedupe pre)) = b
       \<and> map_of (deduped (dedupe cs)) (email a) = Some b
       \<and> length (deduped (dedupe (pre @ (ia, a) # mid @ [(ib, b)])))
           = length (deduped (dedupe (pre @ (ia, a) # mid)))
       \<and> duplicates_removed (dedupe (pre @ (ia, a) # mid @ [(ib, b)]))
           = duplicates_removed (dedupe (pre @ (ia, a) # mid)) + 1"
proof -
  let ?e = "email a"
  let ?n = "length (deduped (dedupe pre))"
  let ?S1 = "dedupe (pre @ [(ia, a)])"
  let ?S2 = "dedupe (pre @ (ia, a) # mid)"
  let ?S3 = "dedupe (pre @ (ia, a) # mid @ [(ib, b)])"
  have S1: "deduped ?S1 = deduped (dedupe pre) @ [(?e, a)]"
    using e pre by (rule first_seen)
  then have ins: "deduped_contacts ?S1 ! ?n = a"
    by (simp add: deduped_contacts_def nth_append)
  have d1: "distinct (map fst (deduped ?S1))" by (rule dedupe_keys_distinct)
  have "(?e, a) \<in> set (deduped ?S1)" by (simp add: S1)
  with d1 have m1: "map_of (deduped ?S1) ?e = Some a" by (rule map_of_is_SomeI)
  have S2: "?S2 = dedupe_from ?S1 mid"
    using dedupe_append [of "pre @ [(ia, a)]" mid] by simp
  from stored_below [OF m1 b(2) mid e] obtain y
    where m2: "map_of (deduped ?S2) ?e = Some y"
      and y: "completeness_score y < completeness_score b"
    unfolding S2 by blast
  have S3: "?S3 = dedupe_step ?S2 (ib, b)"
    using dedupe_snoc [of "pre @ (ia, a) # mid" "(ib, b)"] by simp
  have rep: "dedupe_step ?S2 (ib, b) =
      ?S2\<lparr>deduped := AList.update (email b) b (deduped ?S2),
          duplicates_removed := duplicates_removed ?S2 + 1\<rparr>"
    using m2 y e(1) b(1) dedupe_step_replace [of ?S2 b y ib] by simp
  have m3: "map_of (deduped ?S3) ?e = Some b"
    by (simp add: S3 rep update_conv' b(1))
  have "?e \<in> set (map fst (deduped ?S2))" using m2 by (rule map_of_Some_key)
  then have len3: "length (deduped ?S3) = length (deduped ?S2)"
    using length_map [of fst "deduped ?S3"] length_map [of fst "deduped ?S2"]
    by (simp only: S3 dedupe_step_keys key_of_def b(1) e(1) snd_conv if_True if_False)
  have cnt: "duplicates_removed ?S3 = duplicates_removed ?S2 + 1"
    by (simp add: S3 rep)
  have fin: "dedupe cs = dedupe_from ?S3 post"
    using dedupe_append [of "pre @ (ia, a) # mid @ [(ib, b)]" post] by (simp add: cs)
  have post': "\<forall>ic \<in> set post. email (snd ic) = ?e \<longrightarrow>
      completeness_score (snd ic) \<le> completeness_score b"
    using post .
  from m3 e post' have stored: "map_of (deduped (dedupe cs)) ?e = Some b"
    unfolding fin by (rule stored_kept)
  have fin1: "dedupe cs = dedupe_from ?S1 (mid @ (ib, b) # post)"
    using dedupe_append [of "pre @ [(ia, a)]" "mid @ (ib, b) # post"] by (simp add: cs)
  have "?n < length (deduped ?S1)" and "fst (deduped ?S1 ! ?n) = ?e" by (simp_all add: S1)
  then have pos: "?n < length (deduped (dedupe cs)) \<and> deduped (dedupe cs) ! ?n = (?e, b)"
    using d1 stored unfolding fin1 by (rule final_entry)
  then have at: "?n < length (deduped_contacts (dedupe cs))"
    "deduped_contacts (dedupe cs) ! ?n = b"
    by (simp_all add: deduped_contacts_def)
  show ?thesis using ins at stored len3 cnt by simp
qed

lemma stored_score:
  assumes "map_of (deduped st) e = Some x" and "k \<le> completeness_score x"
    and "e \<noteq> []" and "\<not> prefix (ustr ''NOEMAIL_'') e"
  shows "\<exists>y. map_of (deduped (dedupe_from st cs)) e = Some y \<and> k \<le> completeness_score y"
  using assms(1,2)
proof (induction cs arbitrary: st x)
  case Nil
  then show ?case by (simp add: dedupe_from_Nil)
next
  case (Cons ic cs)
  obtain i c where ic: "ic = (i, c)" by (cases ic)
  have "\<exists>y. map_of (deduped (dedupe_step st ic)) e = Some y \<and> k \<le> completeness_score y"
  proof (cases "email c = e")
    case True
    show ?thesis
    proof (cases "completeness_score x < completeness_score c")
      case True
      have "dedupe_step st (i, c) =
          st\<lparr>deduped := AList.update (email c) c (deduped st),
             duplicates_removed := duplicates_removed st + 1\<rparr>"
        using Cons.prems(1) assms(3) \<open>email c = e\<close> True dedupe_step_replace [of st c x i] by simp
      then have "map_of (deduped (dedupe_step st ic)) e = Some c"
        using \<open>email c = e\<close> by (simp add: ic update_conv')
      then show ?thesis using True Cons.prems(2) by simp
    next
      case False
      then have "dedupe_step st (i, c) = st\<lparr>duplicates_removed := duplicates_removed st + 1\<rparr>"
        using Cons.prems(1) assms(3) \<open>email c = e\<close> dedupe_step_tie [of st c x i] by simp
      then show ?thesis using Cons.prems by (simp add: ic)
    qed
  next
    case False
    then have "key_of ic \<noteq> e" using assms(3,4) by (intro key_of_email) (simp_all add: ic)
    then show ?thesis using Cons.prems by (simp add: dedupe_step_other_key)
  qed
  then obtain y where "map_of (deduped (dedupe_step st ic)) e = Some y"
    and "k \<le> completeness_score y" by blast
  then show ?case unfolding dedupe_from_Cons by (rule Cons.IH)
qed

lemma stored_after_step:
  assumes "email a \<noteq> []"
  shows "\<exists>y. map_of (deduped (dedupe_step st (ia, a))) (email a) = Some y
           \<and> completeness_score a \<le> completeness_score y"
proof (cases "map_of (deduped st) (email a)")
  case None
  then show ?thesis using assms by (simp add: dedupe_step_def update_conv')
next
  case (Some x)
  show ?thesis
  proof (cases "completeness_score x < completeness_score a")
    case True
    then show ?thesis using assms Some by (simp add: dedupe_step_def update_conv')
  next
    case False
    then show ?thesis using assms Some by (simp add: dedupe_step_def Let_def)
  qed
qed

lemma later_duplicate_counted:
  assumes "email a \<noteq> []" and "email b = email a"
  shows "map fst (deduped (dedupe (pre @ (ia, a) # mid @ [(ib, b)])))
           = map fst (deduped (dedupe (pre @ (ia, a) # mid)))
       \<and> duplicates_removed (dedupe (pre @ (ia, a) # mid @ [(ib, b)]))
           = duplicates_removed (dedupe (pre @ (ia, a) # mid)) + 1"
proof -
  let ?S = "dedupe (pre @ (ia, a) # mid)"
  have S3: "dedupe (pre @ (ia, a) # mid @ [(ib, b)]) = dedupe_step ?S (ib, b)"
    using dedupe_snoc [of "pre @ (ia, a) # mid" "(ib, b)"] by simp
  have "key_of (ia, a) \<in> key_of ` set (pre @ (ia, a) # mid)" by simp
  then have "email a \<in> set (map fst (deduped ?S))"
    using assms(1) dedupe_key_set [of "pre @ (ia, a) # mid"] by (simp add: key_of_def)
  then have key: "key_of (ib, b) \<in> set (map fst (deduped ?S))"
    using assms by (simp add: key_of_def)
  then have keys: "map fst (deduped (dedupe_step ?S (ib, b))) = map fst (deduped ?S)"
    by (simp only: dedupe_step_keys if_True)
  from key obtain x where "map_of (deduped ?S) (email b) = Some x"
    using assms by (cases "map_of (deduped ?S) (email b)")
      (auto simp: key_of_def map_of_eq_None_iff)
  then have "duplicates_removed (dedupe_step ?S (ib, b)) = duplicates_removed ?S + 1"
    using assms by (simp add: dedupe_step_def Let_def)
  then show ?thesis using keys by (simp only: S3)
qed

lemma tie_step:
  assumes e: "email a \<noteq> []" "\<not> prefix (ustr ''NOEMAIL_'') (email a)"
    and b: "email b = email a" "completeness_score b = completeness_score a"
  shows "dedupe (pre @ (ia, a) # mid @ [(ib, b)]) =
           (dedupe (pre @ (ia, a) # mid))
             \<lparr>duplicates_removed := duplicates_removed (dedupe (pre @ (ia, a) # mid)) + 1\<rparr>"
proof -
  let ?S = "dedupe (pre @ (ia, a) # mid)"
  obtain x where x: "map_of (deduped (dedupe (pre @ [(ia, a)]))) (email a) = Some x"
    "completeness_score a \<le> completeness_score x"
    using stored_after_step [OF e(1), of "dedupe pre" ia] by (auto simp: dedupe_snoc)
  have "?S = dedupe_from (dedupe (pre @ [(ia, a)])) mid"
    using dedupe_append [of "pre @ [(ia, a)]" mid] by simp
  then obtain y where y: "map_of (deduped ?S) (email a) = Some y"
    "completeness_score a \<le> completeness_score y"
    using stored_score [OF x e, of mid] by auto
  have "dedupe (pre @ (ia, a) # mid @ [(ib, b)]) = dedupe_step ?S (ib, b)"
    using dedupe_snoc [of "pre @ (ia, a) # mid" "(ib, b)"] by simp
  also have "\<dots> = ?S\<lparr>duplicates_removed := duplicates_removed ?S + 1\<rparr>"
    using y e(1) b dedupe_step_tie [of ?S b y ib] by simp
  finally show ?thesis .
qed

text \<open>
  C6, as the code has it. Let a record \<open>b\<close> come after a record \<open>a\<close> with the
  same non-empty email (an email that does not start with \<^verbatim>\<open>NOEMAIL_\<close>, as
  no cleaned email does) and the same completeness score. Whatever the other
  records are, the step that processes \<open>b\<close> leaves the store as it is and adds
  one to \<^verbatim>\<open>duplicates_removed\<close>: a tie never replaces the stored record. If
  moreover \<open>a\<close> is the first record with that email and no other record with
  that email scores higher than \<open>a\<close>, then \<open>a\<close> is in the output, at the
  position at which it was inserted.
\<close>

theorem dedupe_tie_keeps_first:
  assumes e: "email a \<noteq> []" "\<not> prefix (ustr ''NOEMAIL_'') (email a)"
    and b: "email b = email a" "completeness_score b = completeness_score a"
  shows "dedupe (pre @ (ia, a) # mid @ [(ib, b)]) =
           (dedupe (pre @ (ia, a) # mid))
             \<lparr>duplicates_removed := duplicates_removed (dedupe (pre @ (ia, a) # mid)) + 1\<rparr>
       \<and> ((\<forall>ic \<in> set pre. email (snd ic) \<noteq> email a)
            \<and> (\<forall>ic \<in> set (mid @ post). email (snd ic) = email a \<longrightarrow>
                  completeness_score (snd ic) \<le> completeness_score a)
          \<longrightarrow> map_of (deduped (dedupe (pre @ (ia, a) # mid @ (ib, b) # post))) (email a) = Some a
            \<and> length (deduped (dedupe pre))
                < length (deduped_contacts (dedupe (pre @ (ia, a) # mid @ (ib, b) # post)))
            \<and> deduped_contacts (dedupe (pre @ (ia, a) # mid @ (ib, b) # post))
                ! length (deduped (dedupe pre)) = a)"
proof (intro conjI impI)
  show "dedupe (pre @ (ia, a) # mid @ [(ib, b)]) =
           (dedupe (pre @ (ia, a) # mid))
             \<lparr>duplicates_removed := duplicates_removed (dedupe (pre @ (ia, a) # mid)) + 1\<rparr>"
    using e b by (rule tie_step)
next
  assume h: "(\<forall>ic \<in> set pre. email (snd ic) \<noteq> email a)
            \<and> (\<forall>ic \<in> set (mid @ post). email (snd ic) = email a \<longrightarrow>
                  completeness_score (snd ic) \<le> completeness_score a)"
  then have pre: "\<forall>ic \<in> set pre. email (snd ic) \<noteq> email a"
    and rest: "\<forall>ic \<in> set (mid @ post). email (snd ic) = email a \<longrightarrow>
                  completeness_score (snd ic) \<le> completeness_score a"
    by blast+
  note r = tie_scenario [OF refl e b pre rest, of ia ib]
  from r show "map_of (deduped (dedupe (pre @ (ia, a) # mid @ (ib, b) # post))) (email a) = Some a"
    by blast
  from r show "length (deduped (dedupe pre))
                < length (deduped_contacts (dedupe (pre @ (ia, a) # mid @ (ib, b) # post)))"
    by blast
  from r show "deduped_contacts (dedupe (pre @ (ia, a) # mid @ (ib, b) # post))
                ! length (deduped (dedupe pre)) = a"
    by blast
qed

theorem dedupe_tie_keeps_first_witness:
  "deduped_contacts (dedupe (tl example_contacts)) ! 1
     = mk_contact ''Amy'' ''a@b.com'' ''07123456789'' []
   \<and> duplicates_removed (dedupe (tl example_contacts))
     = duplicates_removed (dedupe (butlast (tl example_contacts))) + 1"
proof -
  let ?bob = "mk_contact ''Bob'' [] ''07123456789'' []"
  let ?a = "mk_contact ''Amy'' ''a@b.com'' ''07123456789'' []"
  let ?b = "mk_contact ''Amy B'' ''a@b.com'' ''07000000000'' []"
  have e: "email ?a \<noteq> []" "\<not> prefix (ustr ''NOEMAIL_'') (email ?a)"
    by (simp_all add: mk_contact_def ustr_def)
  have b: "email ?b = email ?a" "completeness_score ?b = completeness_score ?a"
    by (simp_all add: mk_contact_def ustr_def completeness_score_def)
  have side: "(\<forall>ic \<in> set [(4002, ?bob)]. email (snd ic) \<noteq> email ?a)
      \<and> (\<forall>ic \<in> set ([(4004, ?bob)] @ []). email (snd ic) = email ?a \<longrightarrow>
      completeness_score (snd ic) \<le> completeness_score ?a)"
    by (simp add: mk_contact_def ustr_def)
  have n: "length (deduped (dedupe [(4002, ?bob)])) = 1"
    by (simp add: dedupe_def dedupe_from_def dedupe_step_def mk_contact_def ustr_def)
  have bl: "butlast (tl example_contacts) = [(4002, ?bob)] @ (4003, ?a) # [(4004, ?bob)]"
    by (simp add: example_contacts_def)
  have all: "tl example_contacts = [(4002, ?bob)] @ (4003, ?a) # [(4004, ?bob)] @ [(4005, ?b)]"
    by (simp add: example_contacts_def)
  have all': "tl example_contacts = [(4002, ?bob)] @ (4003, ?a) # [(4004, ?bob)] @ (4005, ?b) # []"
    by (simp add: example_contacts_def)
  note r = dedupe_tie_keeps_first [OF e b, where pre = "[(4002, ?bob)]" and ia = 4003
      and mid = "[(4004, ?bob)]" and ib = 4005 and post = "[]"]
  from r side have "deduped_contacts (dedupe ([(4002, ?bob)] @ (4003, ?a) # [(4004, ?bob)] @ (4005, ?b) # []))
      ! length (deduped (dedupe [(4002, ?bob)])) = ?a"
    by blast
  then have r1: "deduped_contacts (dedupe (tl example_contacts)) ! 1 = ?a"
    by (simp only: n all')
  from r have eq: "dedupe ([(4002, ?bob)] @ (4003, ?a) # [(4004, ?bob)] @ [(4005, ?b)]) =
      (dedupe ([(4002, ?bob)] @ (4003, ?a) # [(4004, ?bob)]))
        \<lparr>duplicates_removed :=
           duplicates_removed (dedupe ([(4002, ?bob)] @ (4003, ?a) # [(4004, ?bob)])) + 1\<rparr>"
    by blast
  have "duplicates_removed (dedupe ([(4002, ?bob)] @ (4003, ?a) # [(4004, ?bob)] @ [(4005, ?b)]))
      = duplicates_removed (dedupe ([(4002, ?bob)] @ (4003, ?a) # [(4004, ?bob)])) + 1"
    by (subst eq) simp
  moreover have "dedupe (butlast (tl example_contacts))
      = dedupe ([(4002, ?bob)] @ (4003, ?a) # [(4004, ?bob)])"
    by (simp only: bl)
  moreover have "dedupe (tl example_contacts)
      = dedupe ([(4002, ?bob)] @ (4003, ?a) # [(4004, ?bob)] @ [(4005, ?b)])"
    by (simp only: all)
  ultimately have r2: "duplicates_removed (dedupe (tl example_contacts))
      = duplicates_removed (dedupe (butlast (tl example_contacts))) + 1"
    by (simp only:)
  from r1 r2 show ?thesis by blast
qed

text \<open>
  Three records share an email. The first two tie and the third is more
  complete: the output is the third record alone, and the first-seen record
  is not in it.
\<close>

theorem dedupe_tie_third_record_counterexample:
  "email (mk_contact ''Amy'' ''a@b.com'' [] []) = email (mk_contact ''Amy B'' ''a@b.com'' [] [])
   \<and> email (mk_contact ''Amy'' ''a@b.com'' [] []) \<noteq> []
   \<and> completeness_score (mk_contact ''Amy'' ''a@b.com'' [] [])
       = completeness_score (mk_contact ''Amy B'' ''a@b.com'' [] [])
   \<and> deduped_contacts (dedupe
         [(4001, mk_contact ''Amy'' ''a@b.com'' [] []),
          (4002, mk_contact ''Amy B'' ''a@b.com'' [] []),
          (4003, mk_contact ''Amy'' ''a@b.com'' ''07123456789'' [])])
       = [mk_contact ''Amy'' ''a@b.com'' ''07123456789'' []]
   \<and> mk_contact ''Amy'' ''a@b.com'' [] [] \<notin> set (deduped_contacts (dedupe
         [(4001, mk_contact ''Amy'' ''a@b.com'' [] []),
          (4002, mk_contact ''Amy B'' ''a@b.com'' [] []),
          (4003, mk_contact ''Amy'' ''a@b.com'' ''07123456789'' [])]))"
  by (simp add: dedupe_def dedupe_from_def dedupe_step_def deduped_contacts_def
      mk_contact_def ustr_def completeness_score_def)

text \<open>
  C7, as the code has it. Let \<open>a\<close> be the first record with its non-empty
  email (an email that does not start with \<^verbatim>\<open>NOEMAIL_\<close>, as no cleaned email
  does), let a later record \<open>b\<close> with the same email score strictly higher
  than \<open>a\<close> and than every record with that email between the two, and let no
  record with that email after \<open>b\<close> score higher than \<open>b\<close>. Then the output
  has \<open>b\<close> at the position at which \<open>a\<close> was inserted; the step that processes
  \<open>b\<close> leaves the keys of the store and their order as they are and adds one
  to \<^verbatim>\<open>duplicates_removed\<close>.
\<close>

theorem dedupe_replaces_in_place:
  assumes e: "email a \<noteq> []" "\<not> prefix (ustr ''NOEMAIL_'') (email a)"
    and b: "email b = email a" "completeness_score a < completeness_score b"
    and pre: "\<forall>ic \<in> set pre. email (snd ic) \<noteq> email a"
    and mid: "\<forall>ic \<in> set mid. email (snd ic) = email a \<longrightarrow>
                 completeness_score (snd ic) < completeness_score b"
    and post: "\<forall>ic \<in> set post. email (snd ic) = email a \<longrightarrow>
                 completeness_score (snd ic) \<le> completeness_score b"
  shows "deduped_contacts (dedupe (pre @ [(ia, a)])) ! length (deduped (dedupe pre)) = a
       \<and> length (deduped (dedupe pre))
           < length (deduped_contacts (dedupe (pre @ (ia, a) # mid @ (ib, b) # post)))
       \<and> deduped_contacts (dedupe (pre @ (ia, a) # mid @ (ib, b) # post))
           ! length (deduped (dedupe pre)) = b
       \<and> map_of (deduped (dedupe (pre @ (ia, a) # mid @ (ib, b) # post))) (email a) = Some b
       \<and> map fst (deduped (dedupe (pre @ (ia, a) # mid @ [(ib, b)])))
           = map fst (deduped (dedupe (pre @ (ia, a) # mid)))
       \<and> duplicates_removed (dedupe (pre @ (ia, a) # mid @ [(ib, b)]))
           = duplicates_removed (dedupe (pre @ (ia, a) # mid)) + 1"
proof -
  note c = later_duplicate_counted [OF e(1) b(1), of pre ia mid ib]
  note r = replace_scenario [OF refl e b pre mid post, of ia ib]
  from r have "deduped_contacts (dedupe (pre @ [(ia, a)])) ! length (deduped (dedupe pre)) = a"
    and "length (deduped (dedupe pre))
           < length (deduped_contacts (dedupe (pre @ (ia, a) # mid @ (ib, b) # post)))"
    and "deduped_contacts (dedupe (pre @ (ia, a) # mid @ (ib, b) # post))
           ! length (deduped (dedupe pre)) = b"
    and "map_of (deduped (dedupe (pre @ (ia, a) # mid @ (ib, b) # post))) (email a) = Some b"
    by blast+
  with c show ?thesis by blast
qed

theorem dedupe_replaces_in_place_witness:
  "deduped_contacts (dedupe [(4001, mk_contact ''Amy'' ''a@b.com'' [] [])]) ! 0
     = mk_contact ''Amy'' ''a@b.com'' [] []
   \<and> deduped_contacts (dedupe
         [(4001, mk_contact ''Amy'' ''a@b.com'' [] []),
          (4002, mk_contact ''Amy'' ''a@b.com'' ''07123456789'' []),
          (4003, mk_contact ''Amy'' ''a@b.com'' ''07123456789'' ''Acme'')]) ! 0
     = mk_contact ''Amy'' ''a@b.com'' ''07123456789'' ''Acme''"
proof -
  let ?a = "mk_contact ''Amy'' ''a@b.com'' [] []"
  let ?m = "mk_contact ''Amy'' ''a@b.com'' ''07123456789'' []"
  let ?b = "mk_contact ''Amy'' ''a@b.com'' ''07123456789'' ''Acme''"
  have e: "email ?a \<noteq> []" "\<not> prefix (ustr ''NOEMAIL_'') (email ?a)"
    by (simp_all add: mk_contact_def ustr_def)
  have b: "email ?b = email ?a" "completeness_score ?a < completeness_score ?b"
    by (simp_all add: mk_contact_def ustr_def completeness_score_def)
  have pre: "\<forall>ic \<in> set []. email (snd ic) \<noteq> email ?a"
    by simp
  have mid: "\<forall>ic \<in> set [(4002, ?m)]. email (snd ic) = email ?a \<longrightarrow>
      completeness_score (snd ic) < completeness_score ?b"
    by (simp add: mk_contact_def ustr_def completeness_score_def)
  have post: "\<forall>ic \<in> set []. email (snd ic) = email ?a \<longrightarrow>
      completeness_score (snd ic) \<le> completeness_score ?b"
    by simp
  have n: "length (deduped (dedupe [])) = 0"
    by (simp add: dedupe_def dedupe_from_def)
  note r = dedupe_replaces_in_place [OF e b pre mid post, where ia = 4001 and ib = 4003]
  from r have
    "deduped_contacts (dedupe ([] @ [(4001, ?a)])) ! length (deduped (dedupe [])) = ?a"
    and "deduped_contacts (dedupe ([] @ (4001, ?a) # [(4002, ?m)] @ (4003, ?b) # []))
      ! length (deduped (dedupe [])) = ?b"
    by blast+
  then show ?thesis by (simp add: n)
qed

text \<open>
  Three records share an email and score 2, 3 and 4. The second scores
  strictly higher than the first, and the output holds the third record, not
  the second, at the position of the first.
\<close>

theorem dedupe_replaced_again_counterexample:
  "email (mk_contact ''Amy'' ''a@b.com'' [] [])
     = email (mk_contact ''Amy'' ''a@b.com'' ''07123456789'' [])
   \<and> email (mk_contact ''Amy'' ''a@b.com'' [] []) \<noteq> []
   \<and> completeness_score (mk_contact ''Amy'' ''a@b.com'' [] [])
       < completeness_score (mk_contact ''Amy'' ''a@b.com'' ''07123456789'' [])
   \<and> deduped_contacts (dedupe
         [(4001, mk_contact ''Amy'' ''a@b.com'' [] []),
          (4002, mk_contact ''Amy'' ''a@b.com'' ''07123456789'' []),
          (4003, mk_contact ''Amy'' ''a@b.com'' ''07123456789'' ''Acme'')])
       = [mk_contact ''Amy'' ''a@b.com'' ''07123456789'' ''Acme'']
   \<and> mk_contact ''Amy'' ''a@b.com'' ''07123456789'' ''Acme''
       \<noteq> mk_contact ''Amy'' ''a@b.com'' ''07123456789'' []"
  by (simp add: dedupe_def dedupe_from_def dedupe_step_def deduped_contacts_def
      mk_contact_def ustr_def completeness_score_def)

section \<open>Email validation\<close>

lemma rx_match_plus:
  "rx_match (PlusClass p # r) at_start s \<longleftrightarrow>
     (\<exists>u v. s = u @ v \<and> u \<noteq> [] \<and> list_all p u \<and> rx_match r False v)"
proof (induction s arbitrary: at_start)
  case Nil
  then show ?case by simp
next
  case (Cons x xs)
  show ?case
  proof
    assume "rx_match (PlusClass p # r) at_start (x # xs)"
    then have px: "p x" and alt: "rx_match (PlusClass p # r) False xs \<or> rx_match r False xs"
      by simp_all
    from alt show "\<exists>u v. x # xs = u @ v \<and> u \<noteq> [] \<and> list_all p u \<and> rx_match r False v"
    proof
      assume "rx_match (PlusClass p # r) False xs"
      then obtain u v where "xs = u @ v" "u \<noteq> []" "list_all p u" "rx_match r False v"
        using Cons.IH by blast
      then have "x # xs = (x # u) @ v \<and> x # u \<noteq> [] \<and> list_all p (x # u) \<and> rx_match r False v"
        using px by simp
      then show ?thesis by blast
    next
      assume "rx_match r False xs"
      then have "x # xs = [x] @ xs \<and> [x] \<noteq> [] \<and> list_all p [x] \<and> rx_match r False xs"
        using px by simp
      then show ?thesis by blast
    qed
  next
    assume "\<exists>u v. x # xs = u @ v \<and> u \<noteq> [] \<and> list_all p u \<and> rx_match r False v"
    then obtain u v where uv: "x # xs = u @ v" "u \<noteq> []" "list_all p u" "rx_match r False v"
      by blast
    then obtain u' where u: "u = x # u'" by (cases u) auto
    with uv have px: "p x" and xs: "xs = u' @ v" and pu: "list_all p u'" by simp_all
    show "rx_match (PlusClass p # r) at_start (x # xs)"
    proof (cases "u' = []")
      case True
      then show ?thesis using px xs uv(4) by simp
    next
      case False
      then have "rx_match (PlusClass p # r) False xs"
        using Cons.IH xs pu uv(4) by blast
      then show ?thesis using px by simp
    qed
  qed
qed

lemma rx_match_lit:
  "rx_match (Lit c # r) at_start s \<longleftrightarrow> (\<exists>v. s = c # v \<and> rx_match r False v)"
  by (cases s) auto

lemma strip_last:
  assumes "strip db s \<noteq> []"
  shows "\<not> is_space db (last (strip db s))"
proof -
  let ?t = "dropWhile (is_space db) (rev (dropWhile (is_space db) s))"
  have ne: "?t \<noteq> []" using assms by (simp add: strip_def)
  then have "\<not> is_space db (hd ?t)" by (rule hd_dropWhile)
  moreover have "last (strip db s) = hd ?t" using ne by (simp add: strip_def last_rev)
  ultimately show ?thesis by simp
qed

lemma strip_no_final_newline: "strip db s \<noteq> t @ [10]"
proof
  assume eq: "strip db s = t @ [10]"
  then have "strip db s \<noteq> []" by simp
  then have "\<not> is_space db (last (strip db s))" by (rule strip_last)
  then show False by (simp add: eq is_space_def)
qed

text \<open>
  C1, as the code has it. \<^verbatim>\<open>is_valid_email\<close> holds exactly when the whole
  stripped string is a run of characters other than \<^verbatim>\<open>@\<close> and whitespace, an
  \<^verbatim>\<open>@\<close>, a second such run, a dot and a third such run, each run non-empty:
  the pattern ends with \<^verbatim>\<open>$\<close>, so nothing may follow the third run.
\<close>

theorem is_valid_email_whole_string:
  "is_valid_email db e \<longleftrightarrow>
     (\<exists>a b c. strip db e = a @ ord CHR ''@'' # b @ ord CHR ''.'' # c
        \<and> a \<noteq> [] \<and> b \<noteq> [] \<and> c \<noteq> []
        \<and> list_all (not_at_or_space db) a \<and> list_all (not_at_or_space db) b
        \<and> list_all (not_at_or_space db) c)"
proof
  assume "is_valid_email db e"
  then obtain a b c v where t: "strip db e = a @ ord CHR ''@'' # b @ ord CHR ''.'' # c @ v"
    and ne: "a \<noteq> []" "b \<noteq> []" "c \<noteq> []"
    and cl: "list_all (not_at_or_space db) a" "list_all (not_at_or_space db) b"
      "list_all (not_at_or_space db) c"
    and v: "v = [] \<or> v = [10]"
    unfolding is_valid_email_def email_pattern_def
    by (auto simp: rx_match_plus rx_match_lit)
  from v have "v = []"
  proof
    assume "v = [10]"
    then have "strip db e = (a @ ord CHR ''@'' # b @ ord CHR ''.'' # c) @ [10]" using t by simp
    then show ?thesis using strip_no_final_newline by blast
  qed
  then show "\<exists>a b c. strip db e = a @ ord CHR ''@'' # b @ ord CHR ''.'' # c
        \<and> a \<noteq> [] \<and> b \<noteq> [] \<and> c \<noteq> []
        \<and> list_all (not_at_or_space db) a \<and> list_all (not_at_or_space db) b
        \<and> list_all (not_at_or_space db) c"
    using t ne cl by auto
next
  assume "\<exists>a b c. strip db e = a @ ord CHR ''@'' # b @ ord CHR ''.'' # c
        \<and> a \<noteq> [] \<and> b \<noteq> [] \<and> c \<noteq> []
        \<and> list_all (not_at_or_space db) a \<and> list_all (not_at_or_space db) b
        \<and> list_all (not_at_or_space db) c"
  then obtain a b c where t: "strip db e = a @ ord CHR ''@'' # b @ ord CHR ''.'' # c"
    and ne: "a \<noteq> []" "b \<noteq> []" "c \<noteq> []"
    and cl: "list_all (not_at_or_space db) a" "list_all (not_at_or_space db) b"
      "list_all (not_at_or_space db) c"
    by blast
  have 3: "rx_match [PlusClass (not_at_or_space db), Eol] False c"
    unfolding rx_match_plus using ne(3) cl(3) by (intro exI [of _ c] exI [of _ "[]"]) simp
  have 2: "rx_match [PlusClass (not_at_or_space db), Lit (ord CHR ''.''),
      PlusClass (not_at_or_space db), Eol] False (b @ ord CHR ''.'' # c)"
    unfolding rx_match_plus [of _ "Lit _ # _"] rx_match_lit
    using ne(2) cl(2) 3 by (intro exI [of _ b] exI [of _ "ord CHR ''.'' # c"]) simp
  have 1: "rx_match [PlusClass (not_at_or_space db), Lit (ord CHR ''@''),
      PlusClass (not_at_or_space db), Lit (ord CHR ''.''),
      PlusClass (not_at_or_space db), Eol] True (a @ ord CHR ''@'' # b @ ord CHR ''.'' # c)"
    unfolding rx_match_plus [of _ "Lit (ord CHR ''@'') # _"] rx_match_lit
    using ne(1) cl(1) 2
    by (intro exI [of _ a] exI [of _ "ord CHR ''@'' # b @ ord CHR ''.'' # c"]) simp
  then show "is_valid_email db e"
    by (simp add: is_valid_email_def email_pattern_def t)
qed

text \<open>
  The string \<^verbatim>\<open>a@b.com extra\<close> has a prefix that matches the pattern without
  its end anchor, and is not a valid email for the code.
\<close>

theorem is_valid_email_prefix_counterexample:
  "spec_is_valid_email example_db (ustr ''a@b.com extra'')
   \<and> \<not> is_valid_email example_db (ustr ''a@b.com extra'')"
  by (simp add: spec_is_valid_email_def is_valid_email_def email_pattern_def not_at_or_space_def
      ustr_def strip_def is_space_def)

theorem is_valid_email_whole_string_witness:
  "is_valid_email example_db (ustr '' amy@example.com '')
   \<and> \<not> is_valid_email example_db (ustr ''amy@example'')"
proof -
  have s: "strip example_db (ustr '' amy@example.com '') = ustr ''amy@example.com''"
    by (simp add: strip_def ustr_def is_space_def)
  have "\<exists>a b c. strip example_db (ustr '' amy@example.com '')
          = a @ ord CHR ''@'' # b @ ord CHR ''.'' # c
        \<and> a \<noteq> [] \<and> b \<noteq> [] \<and> c \<noteq> []
        \<and> list_all (not_at_or_space example_db) a \<and> list_all (not_at_or_space example_db) b
        \<and> list_all (not_at_or_space example_db) c"
    unfolding s
    by (intro exI [of _ "ustr ''amy''"] exI [of _ "ustr ''example''"] exI [of _ "ustr ''com''"])
       (simp add: ustr_def not_at_or_space_def is_space_def)
  then have "is_valid_email example_db (ustr '' amy@example.com '')"
    by (simp only: is_valid_email_whole_string)
  moreover have "\<not> is_valid_email example_db (ustr ''amy@example'')"
    by (simp add: is_valid_email_def email_pattern_def not_at_or_space_def ustr_def strip_def
      is_space_def)
  ultimately show ?thesis by blast
qed

section \<open>Company names\<close>

lemma ascii_upper_other: "\<not> is_ascii_letter c \<Longrightarrow> ascii_upper c = c"
  by (auto simp: ascii_upper_def is_ascii_letter_def)

lemma ascii_lower_other: "\<not> is_ascii_letter c \<Longrightarrow> ascii_lower c = c"
  by (auto simp: ascii_lower_def is_ascii_letter_def)

lemma length_title_from: "length (title_from p s) = length s"
  by (induction s arbitrary: p) simp_all

lemma title_from_nth:
  "i < length s \<Longrightarrow>
   title_from p s ! i =
     (if (if i = 0 then p else is_ascii_letter (s ! (i - 1)))
      then ascii_lower (s ! i) else ascii_upper (s ! i))"
proof (induction s arbitrary: p i)
  case Nil
  then show ?case by simp
next
  case (Cons c cs)
  show ?case
  proof (cases i)
    case 0
    then show ?thesis by simp
  next
    case (Suc j)
    then have "j < length cs" using Cons.prems by simp
    then have "title_from (is_ascii_letter c) cs ! j =
      (if (if j = 0 then is_ascii_letter c else is_ascii_letter (cs ! (j - 1)))
       then ascii_lower (cs ! j) else ascii_upper (cs ! j))"
      by (rule Cons.IH)
    then show ?thesis by (cases j) (simp_all add: Suc)
  qed
qed

text \<open>
  C2, as the code has it. On a non-empty, whitespace-normalised ASCII string
  \<^verbatim>\<open>clean_company\<close> keeps the length and works character by character: a letter
  that follows a letter is lower-cased, any other letter (the first character,
  or one after a space, a hyphen, an apostrophe, a digit) is upper-cased, and a
  character that is not a letter stays as it is.
\<close>

theorem clean_company_title_case:
  assumes "is_ascii s" and "s \<noteq> []" and "normalise_spaces db (Some s) = s"
  shows "length (clean_company db (Some s)) = length s
       \<and> (\<forall>i < length s.
            clean_company db (Some s) ! i =
              (if is_ascii_letter (s ! i)
               then (if 0 < i \<and> is_ascii_letter (s ! (i - 1))
                     then ascii_lower (s ! i) else ascii_upper (s ! i))
               else s ! i))"
proof -
  have c: "clean_company db (Some s) = title_from False s"
    using assms by (simp add: clean_company_def py_title_def)
  have "clean_company db (Some s) ! i =
          (if is_ascii_letter (s ! i)
           then (if 0 < i \<and> is_ascii_letter (s ! (i - 1))
                 then ascii_lower (s ! i) else ascii_upper (s ! i))
           else s ! i)" if "i < length s" for i
    using that by (simp add: c title_from_nth ascii_upper_other ascii_lower_other)
  then show ?thesis by (simp add: c length_title_from)
qed

text \<open>
  On \<^verbatim>\<open>o'neil-smith ltd\<close> the code capitalises the letters after the apostrophe
  and after the hyphen; capitalising the first character of each
  whitespace-delimited word and lower-casing the rest gives another string.
\<close>

theorem clean_company_words_counterexample:
  "clean_company example_db (Some (ustr ''o'neil-smith ltd'')) = ustr ''O'Neil-Smith Ltd''
   \<and> spec_clean_company (ustr ''o'neil-smith ltd'') = ustr ''O'neil-smith Ltd''
   \<and> normalise_spaces example_db (Some (ustr ''o'neil-smith ltd'')) = ustr ''o'neil-smith ltd''"
  by (simp add: clean_company_def spec_clean_company_def spec_capitalise_word_def
      normalise_spaces_def strip_def is_space_def py_title_def is_ascii_def ustr_def
      ascii_upper_def ascii_lower_def is_ascii_letter_def)

theorem clean_company_title_case_witness:
  "clean_company example_db (Some (ustr ''acme-2go ltd'')) ! 0 = ord CHR ''A''
   \<and> clean_company example_db (Some (ustr ''acme-2go ltd'')) ! 1 = ord CHR ''c''
   \<and> clean_company example_db (Some (ustr ''acme-2go ltd'')) ! 6 = ord CHR ''G''"
proof -
  let ?s = "ustr ''acme-2go ltd''"
  have a: "is_ascii ?s" by (simp add: is_ascii_def ustr_def)
  have b: "?s \<noteq> []" by (simp add: ustr_def)
  have c: "normalise_spaces example_db (Some ?s) = ?s"
    by (simp add: normalise_spaces_def strip_def is_space_def ustr_def)
  have l: "length ?s = 12" by (simp add: ustr_def)
  note r = clean_company_title_case [OF a b c, unfolded l]
  from r have "\<forall>i < 12. clean_company example_db (Some ?s) ! i =
              (if is_ascii_letter (?s ! i)
               then (if 0 < i \<and> is_ascii_letter (?s ! (i - 1))
                     then ascii_lower (?s ! i) else ascii_upper (?s ! i))
               else ?s ! i)"
    by blast
  then have "clean_company example_db (Some ?s) ! 0 =
              (if is_ascii_letter (?s ! 0)
               then (if 0 < (0::nat) \<and> is_ascii_letter (?s ! (0 - 1))
                     then ascii_lower (?s ! 0) else ascii_upper (?s ! 0))
               else ?s ! 0)"
    and "clean_company example_db (Some ?s) ! 1 =
              (if is_ascii_letter (?s ! 1)
               then (if 0 < (1::nat) \<and> is_ascii_letter (?s ! (1 - 1))
                     then ascii_lower (?s ! 1) else ascii_upper (?s ! 1))
               else ?s ! 1)"
    and "clean_company example_db (Some ?s) ! 6 =
              (if is_ascii_letter (?s ! 6)
               then (if 0 < (6::nat) \<and> is_ascii_letter (?s ! (6 - 1))
                     then ascii_lower (?s ! 6) else ascii_upper (?s ! 6))
               else ?s ! 6)"
    by simp_all
  then show ?thesis
    by (simp add: ustr_def is_ascii_letter_def ascii_upper_def ascii_lower_def)
qed

section \<open>Idempotence of the cleaners\<close>

subsection \<open>Normalised strings\<close>

lemma normalised_hd: "normalised db s \<Longrightarrow> s \<noteq> [] \<Longrightarrow> \<not> is_space db (hd s)"
  by (induction db s rule: normalised.induct) simp_all

lemma normalised_last: "normalised db s \<Longrightarrow> s \<noteq> [] \<Longrightarrow> \<not> is_space db (last s)"
  by (induction db s rule: normalised.induct) (simp_all split: if_splits)

lemma dropWhile_hd_id: "s \<noteq> [] \<Longrightarrow> \<not> P (hd s) \<Longrightarrow> dropWhile P s = s"
  by (cases s) simp_all

lemma collapse_normalised: "normalised db s \<Longrightarrow> collapse_spaces db s = s"
proof (induction db s rule: normalised.induct)
  case (1 db)
  then show ?case by simp
next
  case (2 db c)
  then show ?case by simp
next
  case (3 db c d r)
  show ?case
  proof (cases "d = ord CHR '' ''")
    case True
    with 3 have r: "r \<noteq> []" "normalised db r" and c: "\<not> is_space db c" by simp_all
    then have "dropWhile (is_space db) r = r"
      by (intro dropWhile_hd_id normalised_hd)
    moreover have "collapse_spaces db r = r" using 3(1) True r by simp
    ultimately show ?thesis using c True by (simp add: is_space_def)
  next
    case False
    with 3 have "normalised db (d # r)" and c: "\<not> is_space db c" by simp_all
    then have "collapse_spaces db (d # r) = d # r" using 3(2) False by simp
    then show ?thesis using c by simp
  qed
qed

lemma strip_id:
  assumes "s \<noteq> []" and "\<not> is_space db (hd s)" and "\<not> is_space db (last s)"
  shows "strip db s = s"
proof -
  have "dropWhile (is_space db) s = s" using assms(1,2) by (rule dropWhile_hd_id)
  moreover have "dropWhile (is_space db) (rev s) = rev s"
    using assms(1,3) by (intro dropWhile_hd_id) (simp_all add: hd_rev)
  ultimately show ?thesis by (simp add: strip_def)
qed

lemma strip_Nil: "strip db [] = []"
  by (simp add: strip_def)

lemma normalise_fixed: "normalised db s \<Longrightarrow> normalise_spaces db (Some s) = s"
proof (cases "s = []")
  case True
  then show ?thesis by (simp add: normalise_spaces_def strip_Nil)
next
  case False
  assume n: "normalised db s"
  then have "strip db s = s" using False by (intro strip_id normalised_hd normalised_last)
  then show ?thesis using n by (simp add: normalise_spaces_def collapse_normalised)
qed

lemma blank_is_space: "\<not> is_space db c \<Longrightarrow> c \<noteq> ord CHR '' ''"
  by (auto simp: is_space_def)

lemma normalised_collapse:
  "\<not> is_space db x \<Longrightarrow> t = [] \<or> \<not> is_space db (last t)
     \<Longrightarrow> normalised db (x # collapse_spaces db t)"
proof (induction db t arbitrary: x rule: collapse_spaces.induct)
  case (1 db)
  then show ?case by simp
next
  case (2 db c cs)
  show ?case
  proof (cases "is_space db c")
    case True
    let ?r = "dropWhile (is_space db) cs"
    have lst: "\<not> is_space db (last (c # cs))" using 2(4) by simp
    have "cs \<noteq> []" using lst True by auto
    then have lcs: "\<not> is_space db (last cs)" using lst by simp
    have ne: "?r \<noteq> []"
    proof
      assume "?r = []"
      then have "\<forall>y \<in> set cs. is_space db y" by (simp add: dropWhile_eq_Nil_conv)
      then show False using \<open>cs \<noteq> []\<close> lcs by (meson last_in_set)
    qed
    then obtain y ys where r: "?r = y # ys" by (cases ?r) auto
    have y: "\<not> is_space db y" using hd_dropWhile [OF ne] r by simp
    have "last ?r = last cs"
      using ne by (metis last_appendR takeWhile_dropWhile_id)
    then have "?r = [] \<or> \<not> is_space db (last ?r)" using lcs by simp
    with 2(1) [OF True 2(3)] have "normalised db (x # collapse_spaces db ?r)" by blast
    then have "normalised db (y # collapse_spaces db ys)"
      using y blank_is_space [OF y] by (simp add: r)
    then show ?thesis using True 2(3) y by (simp add: r)
  next
    case False
    have "cs = [] \<or> \<not> is_space db (last cs)" using 2(4) by (cases cs) auto
    with 2(2) [OF False False] have "normalised db (c # collapse_spaces db cs)" by blast
    then show ?thesis using False 2(3) blank_is_space [OF False] by simp
  qed
qed

lemma takeWhile_rev_suffix: "s = rev (dropWhile P (rev s)) @ rev (takeWhile P (rev s))"
  by (metis rev_append rev_rev_ident takeWhile_dropWhile_id)

lemma strip_hd:
  assumes "strip db s \<noteq> []"
  shows "\<not> is_space db (hd (strip db s))"
proof -
  let ?u = "dropWhile (is_space db) s"
  have s: "strip db s = rev (dropWhile (is_space db) (rev ?u))" by (simp add: strip_def)
  have "?u = strip db s @ rev (takeWhile (is_space db) (rev ?u))"
    unfolding s by (rule takeWhile_rev_suffix)
  then have "hd ?u = hd (strip db s)" using assms by (metis hd_append2)
  moreover have "?u \<noteq> []"
  proof
    assume u: "?u = []"
    have "strip db s = []" unfolding s u by simp
    with assms show False by blast
  qed
  then have "\<not> is_space db (hd ?u)" by (rule hd_dropWhile)
  ultimately show ?thesis by simp
qed

lemma normalised_normalise: "normalised db (normalise_spaces db x)"
proof -
  obtain s where n: "normalise_spaces db x = collapse_spaces db (strip db s)"
    by (simp add: normalise_spaces_def)
  show ?thesis
  proof (cases "strip db s")
    case Nil
    then show ?thesis by (simp add: n)
  next
    case (Cons y ys)
    then have ne: "strip db s \<noteq> []" by simp
    have y: "\<not> is_space db y" using strip_hd [OF ne] Cons by simp
    have "ys = [] \<or> \<not> is_space db (last ys)"
      using strip_last [OF ne] Cons by (cases ys) auto
    with y have "normalised db (y # collapse_spaces db ys)" by (rule normalised_collapse)
    then show ?thesis using y by (simp add: n Cons)
  qed
qed

lemma set_collapse_spaces:
  "set (collapse_spaces db s) \<subseteq> insert (ord CHR '' '') (set s)"
proof (induction db s rule: collapse_spaces.induct)
  case (1 db)
  then show ?case by simp
next
  case (2 db c cs)
  show ?case
  proof (cases "is_space db c")
    case True
    have "set (dropWhile (is_space db) cs) \<subseteq> set cs" by (auto dest: set_dropWhileD)
    then show ?thesis using 2(1) [OF True] True by auto
  next
    case False
    then show ?thesis using 2(2) by auto
  qed
qed

lemma set_strip: "set (strip db s) \<subseteq> set s"
  by (auto simp: strip_def dest!: set_dropWhileD)

lemma set_normalise_spaces:
  "set (normalise_spaces db (Some s)) \<subseteq> insert (ord CHR '' '') (set s)"
  using set_collapse_spaces [of db "strip db s"] set_strip [of db s]
  by (auto simp: normalise_spaces_def)

lemma is_ascii_normalise: "is_ascii s \<Longrightarrow> is_ascii (normalise_spaces db (Some s))"
  using set_normalise_spaces [of db s] by (auto simp: is_ascii_def list_all_iff)

subsection \<open>Emails, companies and phone numbers\<close>

lemma ascii_lower_space: "is_space db (ascii_lower c) = is_space db c"
  by (auto simp: ascii_lower_def is_space_def)

lemma ascii_upper_space: "is_space db (ascii_upper c) = is_space db c"
  by (auto simp: ascii_upper_def is_space_def)

lemma ascii_lower_blank: "ascii_lower c = 32 \<longleftrightarrow> c = 32"
  by (auto simp: ascii_lower_def)

lemma ascii_upper_blank: "ascii_upper c = 32 \<longleftrightarrow> c = 32"
  by (auto simp: ascii_upper_def)

lemma ascii_lower_idem: "ascii_lower (ascii_lower c) = ascii_lower c"
  by (auto simp: ascii_lower_def)

lemma ascii_upper_idem: "ascii_upper (ascii_upper c) = ascii_upper c"
  by (auto simp: ascii_upper_def)

lemma ascii_lower_ascii: "c < 128 \<Longrightarrow> ascii_lower c < 128"
  by (auto simp: ascii_lower_def)

lemma ascii_upper_ascii: "c < 128 \<Longrightarrow> ascii_upper c < 128"
  by (auto simp: ascii_upper_def)

lemma ascii_lower_letter: "is_ascii_letter (ascii_lower c) = is_ascii_letter c"
  by (auto simp: ascii_lower_def is_ascii_letter_def)

lemma ascii_upper_letter: "is_ascii_letter (ascii_upper c) = is_ascii_letter c"
  by (auto simp: ascii_upper_def is_ascii_letter_def)

lemma normalised_map:
  "\<forall>c. is_space db (f c) = is_space db c \<Longrightarrow> \<forall>c. f c = 32 \<longleftrightarrow> c = 32
     \<Longrightarrow> normalised db (map f s) = normalised db s"
  by (induction db s rule: normalised.induct) simp_all

lemma is_ascii_map_lower: "is_ascii s \<Longrightarrow> is_ascii (map ascii_lower s)"
  by (simp add: is_ascii_def list_all_iff ascii_lower_ascii)

lemma clean_email_ascii:
  "is_ascii s \<Longrightarrow> clean_email db (Some s) = map ascii_lower (normalise_spaces db (Some s))"
  by (simp add: clean_email_def py_lower_def is_ascii_normalise)

lemma clean_email_idem:
  assumes "is_ascii s"
  shows "clean_email db (Some (clean_email db (Some s))) = clean_email db (Some s)"
proof -
  let ?t = "map ascii_lower (normalise_spaces db (Some s))"
  have t: "clean_email db (Some s) = ?t" using assms by (rule clean_email_ascii)
  have a: "is_ascii ?t" using assms by (intro is_ascii_map_lower is_ascii_normalise)
  have "normalised db ?t = normalised db (normalise_spaces db (Some s))"
    by (rule normalised_map) (simp_all add: ascii_lower_space ascii_lower_blank)
  then have "normalised db ?t" by (simp add: normalised_normalise)
  then have n: "normalise_spaces db (Some ?t) = ?t" by (rule normalise_fixed)
  have "clean_email db (Some ?t) = map ascii_lower ?t"
    using a by (simp add: clean_email_ascii n)
  also have "\<dots> = ?t" by (simp add: ascii_lower_idem)
  finally show ?thesis by (simp only: t)
qed

lemma ascii_lower_not_N: "ascii_lower c \<noteq> 78"
  by (auto simp: ascii_lower_def)

lemma clean_email_no_noemail_prefix:
  assumes "is_ascii s"
  shows "\<not> prefix (ustr ''NOEMAIL_'') (clean_email db (Some s))"
proof
  assume "prefix (ustr ''NOEMAIL_'') (clean_email db (Some s))"
  then have "78 \<in> set (clean_email db (Some s))" by (auto simp: prefix_def ustr_def)
  then show False using assms by (auto simp: clean_email_ascii ascii_lower_not_N)
qed

lemma normalised_title_from: "normalised db (title_from p s) = normalised db s"
proof (induction db s arbitrary: p rule: normalised.induct)
  case (1 db)
  then show ?case by simp
next
  case (2 db c)
  then show ?case by (simp add: ascii_lower_space ascii_upper_space)
next
  case (3 db c d r)
  have empty: "title_from q r = [] \<longleftrightarrow> r = []" for q by (cases r) simp_all
  show ?case
  proof (cases "d = ord CHR '' ''")
    case True
    then show ?thesis
      using 3(1) [OF True, of "is_ascii_letter d"] empty
      by (simp add: ascii_lower_space ascii_upper_space ascii_lower_blank ascii_upper_blank)
  next
    case False
    then show ?thesis
      using 3(2) [OF False, of "is_ascii_letter c"]
      by (simp add: ascii_lower_space ascii_upper_space ascii_lower_blank ascii_upper_blank)
  qed
qed

lemma title_from_idem: "title_from p (title_from p s) = title_from p s"
  by (induction s arbitrary: p)
     (simp_all add: ascii_lower_idem ascii_upper_idem ascii_lower_letter ascii_upper_letter)

lemma is_ascii_title_from: "is_ascii s \<Longrightarrow> is_ascii (title_from p s)"
  by (induction s arbitrary: p) (simp_all add: is_ascii_def ascii_lower_ascii ascii_upper_ascii)

lemma title_from_Nil_iff: "title_from p s = [] \<longleftrightarrow> s = []"
  by (cases s) simp_all

lemma clean_company_idem:
  assumes "is_ascii s"
  shows "clean_company db (Some (clean_company db (Some s))) = clean_company db (Some s)"
proof -
  let ?n = "normalise_spaces db (Some s)"
  let ?t = "title_from False ?n"
  have an: "is_ascii ?n" using assms by (rule is_ascii_normalise)
  have t: "clean_company db (Some s) = ?t"
    using an by (simp add: clean_company_def py_title_def Let_def)
  have a: "is_ascii ?t" using an by (rule is_ascii_title_from)
  have "normalised db ?t" by (simp add: normalised_title_from normalised_normalise)
  then have n: "normalise_spaces db (Some ?t) = ?t" by (rule normalise_fixed)
  have "clean_company db (Some ?t) = title_from False ?t"
    using a by (simp add: clean_company_def py_title_def n Let_def)
  also have "\<dots> = ?t" by (rule title_from_idem)
  finally show ?thesis by (simp only: t)
qed

lemma normalised_no_space: "\<forall>c \<in> set s. \<not> is_space db c \<Longrightarrow> normalised db s"
proof (induction db s rule: normalised.induct)
  case (1 db)
  then show ?case by simp
next
  case (2 db c)
  then show ?case by simp
next
  case (3 db c d r)
  have "\<not> is_space db d" using 3(3) by simp
  then have "d \<noteq> ord CHR '' ''" by (rule blank_is_space)
  then show ?case using 3 by simp
qed

lemma clean_phone_fixed:
  assumes "\<forall>c \<in> set p. is_decimal db c \<and> \<not> is_space db c"
  shows "clean_phone db (Some p) = p"
proof -
  have "normalised db p" using assms by (intro normalised_no_space) simp
  then have n: "normalise_spaces db (Some p) = p" by (rule normalise_fixed)
  have k: "keep_digits_plus db p = p" using assms by (simp add: keep_digits_plus_def)
  have f: "filter (is_decimal db) p = p" using assms by simp
  have "\<not> is_decimal db (ord CHR ''+'')" by (simp add: is_decimal_def)
  then have "\<not> prefix (ustr ''+44'') p" using assms by (auto simp: prefix_def ustr_def)
  then show ?thesis by (simp add: clean_phone_def n k f)
qed

lemma clean_phone_decimal: "\<forall>c \<in> set (clean_phone db x). is_decimal db c"
  by (simp add: clean_phone_def Let_def)

lemma clean_phone_chars:
  "set (clean_phone db (Some s)) \<subseteq> insert (ord CHR ''0'') (insert (ord CHR '' '') (set s))"
proof -
  have "set (keep_digits_plus db (normalise_spaces db (Some s)))
      \<subseteq> insert (ord CHR '' '') (set s)"
    using set_normalise_spaces [of db s] by (auto simp: keep_digits_plus_def)
  moreover have "set (drop 3 xs) \<subseteq> set xs" for xs :: ustring by (rule set_drop_subset)
  ultimately show ?thesis
    by (auto simp: clean_phone_def Let_def dest!: in_set_dropD)
qed

lemma clean_phone_idem:
  assumes "is_ascii s \<or> (\<forall>c. is_space db c \<longrightarrow> \<not> is_decimal db c)"
  shows "clean_phone db (Some (clean_phone db (Some s))) = clean_phone db (Some s)"
proof (rule clean_phone_fixed, rule ballI)
  fix c assume c: "c \<in> set (clean_phone db (Some s))"
  then have d: "is_decimal db c" using clean_phone_decimal by blast
  from assms have "\<not> is_space db c"
  proof
    assume "is_ascii s"
    then have "c < 128" using c clean_phone_chars [of db s]
      by (auto simp: is_ascii_def list_all_iff)
    then show ?thesis using d by (auto simp: is_decimal_def is_space_def)
  next
    assume "\<forall>c. is_space db c \<longrightarrow> \<not> is_decimal db c"
    then show ?thesis using d by blast
  qed
  with d show "is_decimal db c \<and> \<not> is_space db c" by blast
qed

subsection \<open>Splitting and joining\<close>

lemma split_on_nonempty: "split_on sep s \<noteq> []"
  by (induction s) (auto split: list.splits)

lemma split_on_no_sep: "sep \<notin> set w \<Longrightarrow> split_on sep w = [w]"
  by (induction w) auto

lemma split_on_append:
  "sep \<notin> set w \<Longrightarrow> split_on sep (w @ sep # rest) = w # split_on sep rest"
  by (induction w) auto

lemma split_join:
  "ws \<noteq> [] \<Longrightarrow> \<forall>w \<in> set ws. sep \<notin> set w \<Longrightarrow> split_on sep (join [sep] ws) = ws"
proof (induction ws)
  case Nil
  then show ?case by simp
next
  case (Cons w ws)
  show ?case
  proof (cases ws)
    case Nil
    then show ?thesis using Cons.prems by (simp add: split_on_no_sep)
  next
    case (Cons w' rest)
    then have "split_on sep (join [sep] ws) = ws" using Cons.IH Cons.prems by simp
    moreover have "join [sep] (w # ws) = w @ sep # join [sep] ws" by (simp add: Cons)
    moreover have "sep \<notin> set w" using Cons.prems by simp
    ultimately show ?thesis by (simp add: split_on_append)
  qed
qed

lemma split_parts:
  "p \<in> set (split_on sep s) \<Longrightarrow> sep \<notin> set p \<and> set p \<subseteq> set s"
proof (induction s arbitrary: p)
  case Nil
  then show ?case by simp
next
  case (Cons c cs)
  obtain w ws where sp: "split_on sep cs = w # ws"
    using split_on_nonempty [of sep cs] by (cases "split_on sep cs") auto
  show ?case
  proof (cases "c = sep")
    case True
    then have "p = [] \<or> p \<in> set (split_on sep cs)" using Cons.prems by auto
    then show ?thesis using Cons.IH by auto
  next
    case False
    then have "p = c # w \<or> p \<in> set ws" using Cons.prems sp by auto
    moreover have "sep \<notin> set w \<and> set w \<subseteq> set cs" using Cons.IH [of w] sp by simp
    moreover have "sep \<notin> set q \<and> set q \<subseteq> set cs" if "q \<in> set ws" for q
      using Cons.IH [of q] sp that by simp
    ultimately show ?thesis using False by auto
  qed
qed

lemma join_cons_head: "join sep ((c # w) # ws) = c # join sep (w # ws)"
  by (cases ws) simp_all

lemma join_split: "join [sep] (split_on sep s) = s"
proof (induction s)
  case Nil
  then show ?case by simp
next
  case (Cons c cs)
  obtain w ws where sp: "split_on sep cs = w # ws"
    using split_on_nonempty [of sep cs] by (cases "split_on sep cs") auto
  show ?case
  proof (cases "c = sep")
    case True
    then show ?thesis using Cons.IH sp by simp
  next
    case False
    then show ?thesis using Cons.IH sp by (simp add: join_cons_head)
  qed
qed

lemma join_Nil_iff: "join [sep] ws = [] \<longleftrightarrow> ws = [] \<or> ws = [[]]"
  by (induction "[sep]" ws rule: join.induct) simp_all

lemma set_join: "set (join sep ws) \<subseteq> set sep \<union> \<Union> (set ` set ws)"
  by (induction sep ws rule: join.induct) auto

lemma normalised_words:
  "normalised db s \<Longrightarrow> s \<noteq> [] \<Longrightarrow>
     \<forall>w \<in> set (split_on (ord CHR '' '') s). w \<noteq> [] \<and> (\<forall>c \<in> set w. \<not> is_space db c)"
proof (induction db s rule: normalised.induct)
  case (1 db)
  then show ?case by simp
next
  case (2 db c)
  then have "c \<noteq> ord CHR '' ''" by (intro blank_is_space) simp
  then show ?case using 2 by simp
next
  case (3 db c d r)
  have c: "\<not> is_space db c" using 3(3) by simp
  then have c32: "c \<noteq> ord CHR '' ''" by (rule blank_is_space)
  show ?case
  proof (cases "d = ord CHR '' ''")
    case True
    then have r: "r \<noteq> []" "normalised db r" using 3(3) by simp_all
    have "\<forall>w \<in> set (split_on (ord CHR '' '') r). w \<noteq> [] \<and> (\<forall>c \<in> set w. \<not> is_space db c)"
      using 3(1) [OF True] r by blast
    moreover have "split_on (ord CHR '' '') (c # d # r) = [c] # split_on (ord CHR '' '') r"
      using True c32 by simp
    ultimately show ?thesis using c by simp
  next
    case False
    then have n: "normalised db (d # r)" using 3(3) by simp
    obtain w ws where sp: "split_on (ord CHR '' '') (d # r) = w # ws"
      using split_on_nonempty [of "ord CHR '' ''" "d # r"]
      by (cases "split_on (ord CHR '' '') (d # r)") auto
    have ih: "\<forall>w \<in> set (split_on (ord CHR '' '') (d # r)).
        w \<noteq> [] \<and> (\<forall>c \<in> set w. \<not> is_space db c)"
      using 3(2) [OF False] n by blast
    have "split_on (ord CHR '' '') (c # d # r) = (c # w) # ws"
      using c32 sp by (simp del: split_on.simps add: split_on.simps(2) [of _ c])
    then show ?thesis using ih c sp by simp
  qed
qed

lemma normalised_word_then:
  "w \<noteq> [] \<Longrightarrow> \<forall>c \<in> set w. \<not> is_space db c \<Longrightarrow> t \<noteq> [] \<Longrightarrow> normalised db t
     \<Longrightarrow> normalised db (w @ ord CHR '' '' # t)"
proof (induction w)
  case Nil
  then show ?case by simp
next
  case (Cons c w)
  show ?case
  proof (cases w)
    case Nil
    then show ?thesis using Cons.prems by simp
  next
    case (Cons c' w')
    have "\<not> is_space db c'" using Cons.prems Cons by simp
    then have "c' \<noteq> ord CHR '' ''" by (rule blank_is_space)
    moreover have "normalised db (w @ ord CHR '' '' # t)"
      using Cons.IH Cons.prems Cons by simp
    ultimately show ?thesis using Cons.prems Cons by simp
  qed
qed

lemma join_nonempty: "ws \<noteq> [] \<Longrightarrow> hd ws \<noteq> [] \<Longrightarrow> join sep ws \<noteq> []"
  by (induction sep ws rule: join.induct) simp_all

lemma normalised_join:
  "ws \<noteq> [] \<Longrightarrow> \<forall>w \<in> set ws. w \<noteq> [] \<and> (\<forall>c \<in> set w. \<not> is_space db c)
     \<Longrightarrow> normalised db (join [ord CHR '' ''] ws)"
proof (induction ws)
  case Nil
  then show ?case by simp
next
  case (Cons w ws)
  show ?case
  proof (cases ws)
    case Nil
    then show ?thesis using Cons.prems by (simp add: normalised_no_space)
  next
    case (Cons w' rest)
    then have n: "normalised db (join [ord CHR '' ''] ws)" using Cons.IH Cons.prems by simp
    have ne: "join [ord CHR '' ''] ws \<noteq> []"
      using Cons Cons.prems by (intro join_nonempty) simp_all
    have "normalised db (w @ ord CHR '' '' # join [ord CHR '' ''] ws)"
      using Cons.prems ne n by (intro normalised_word_then) simp_all
    then show ?thesis by (simp add: Cons)
  qed
qed

subsection \<open>Names\<close>

lemma capitalise_part_ascii:
  "is_ascii p \<Longrightarrow>
     capitalise_part db p = (case p of [] \<Rightarrow> [] | c # cs \<Rightarrow> ascii_upper c # map ascii_lower cs)"
  by (cases p) (simp_all add: capitalise_part_def py_upper_def py_lower_def is_ascii_def)

lemma capitalise_part_set:
  assumes "is_ascii p" and "c \<in> set (capitalise_part db p)"
  shows "\<exists>c0 \<in> set p. c = ascii_upper c0 \<or> c = ascii_lower c0"
  using assms by (cases p) (auto simp: capitalise_part_ascii)

lemma capitalise_part_Nil_iff: "is_ascii p \<Longrightarrow> capitalise_part db p = [] \<longleftrightarrow> p = []"
  by (cases p) (simp_all add: capitalise_part_ascii)

lemma capitalise_part_is_ascii: "is_ascii p \<Longrightarrow> is_ascii (capitalise_part db p)"
  by (cases p)
     (simp_all add: capitalise_part_ascii is_ascii_def list_all_iff ascii_upper_ascii
        ascii_lower_ascii)

lemma capitalise_part_idem:
  assumes "is_ascii p"
  shows "capitalise_part db (capitalise_part db p) = capitalise_part db p"
proof -
  have "is_ascii (capitalise_part db p)" using assms by (rule capitalise_part_is_ascii)
  then have "capitalise_part db (capitalise_part db p) =
      (case capitalise_part db p of [] \<Rightarrow> [] | c # cs \<Rightarrow> ascii_upper c # map ascii_lower cs)"
    by (rule capitalise_part_ascii)
  then show ?thesis using assms
    by (cases p) (simp_all add: capitalise_part_ascii ascii_upper_idem ascii_lower_idem)
qed

lemma ascii_upper_hyphen: "ascii_upper c = 45 \<longleftrightarrow> c = 45"
  by (auto simp: ascii_upper_def)

lemma ascii_lower_hyphen: "ascii_lower c = 45 \<longleftrightarrow> c = 45"
  by (auto simp: ascii_lower_def)

lemma capitalise_part_no_hyphen:
  assumes "is_ascii p" and "45 \<notin> set p"
  shows "45 \<notin> set (capitalise_part db p)"
proof
  assume "45 \<in> set (capitalise_part db p)"
  then obtain c0 where "c0 \<in> set p" and "45 = ascii_upper c0 \<or> 45 = ascii_lower c0"
    using capitalise_part_set [OF assms(1)] by blast
  then have "c0 = 45" by (metis ascii_upper_hyphen ascii_lower_hyphen)
  then show False using \<open>c0 \<in> set p\<close> assms(2) by simp
qed

lemma is_ascii_subset: "is_ascii s \<Longrightarrow> set p \<subseteq> set s \<Longrightarrow> is_ascii p"
  by (auto simp: is_ascii_def list_all_iff)

lemma parts_ascii:
  "is_ascii w \<Longrightarrow> p \<in> set (split_on sep w) \<Longrightarrow> is_ascii p"
  using split_parts [of p sep w] by (auto intro: is_ascii_subset)

lemma clean_word_unfold:
  "clean_word db w = join [45] (map (capitalise_part db) (split_on 45 w))"
  by (simp add: clean_word_def ustr_def)

lemma clean_word_idem:
  assumes "is_ascii w"
  shows "clean_word db (clean_word db w) = clean_word db w"
proof -
  let ?ps = "split_on 45 w"
  let ?cs = "map (capitalise_part db) ?ps"
  have asc: "is_ascii p" if "p \<in> set ?ps" for p using assms that by (rule parts_ascii)
  have "\<forall>q \<in> set ?cs. 45 \<notin> set q"
  proof
    fix q assume "q \<in> set ?cs"
    then obtain p where p: "p \<in> set ?ps" and q: "q = capitalise_part db p" by auto
    have "45 \<notin> set p" using split_parts [OF p] by simp
    with asc [OF p] show "45 \<notin> set q" unfolding q by (rule capitalise_part_no_hyphen)
  qed
  moreover have "?cs \<noteq> []" by (simp add: split_on_nonempty)
  ultimately have "split_on 45 (join [45] ?cs) = ?cs" by (intro split_join)
  then have "clean_word db (clean_word db w) = join [45] (map (capitalise_part db) ?cs)"
    by (simp add: clean_word_unfold)
  also have "map (capitalise_part db) ?cs = ?cs"
    using asc by (simp add: capitalise_part_idem)
  finally show ?thesis by (simp add: clean_word_unfold)
qed

lemma clean_word_chars:
  assumes "is_ascii w" and "c \<in> set (clean_word db w)"
  shows "c = 45 \<or> (\<exists>c0 \<in> set w. c = ascii_upper c0 \<or> c = ascii_lower c0)"
proof -
  from assms(2) have "c \<in> set [45] \<union> \<Union> (set ` set (map (capitalise_part db) (split_on 45 w)))"
    using set_join [of "[45]" "map (capitalise_part db) (split_on 45 w)"]
    by (auto simp: clean_word_unfold)
  then show ?thesis
  proof
    assume "c \<in> set [45]"
    then show ?thesis by simp
  next
    assume "c \<in> \<Union> (set ` set (map (capitalise_part db) (split_on 45 w)))"
    then obtain p where p: "p \<in> set (split_on 45 w)" and c: "c \<in> set (capitalise_part db p)"
      by auto
    have "is_ascii p" using assms(1) p by (rule parts_ascii)
    then obtain c0 where "c0 \<in> set p" and "c = ascii_upper c0 \<or> c = ascii_lower c0"
      using capitalise_part_set c by blast
    moreover have "set p \<subseteq> set w" using split_parts [OF p] by simp
    ultimately show ?thesis by blast
  qed
qed

lemma clean_word_no_space:
  assumes "is_ascii w" and "\<forall>c \<in> set w. \<not> is_space db c"
  shows "\<forall>c \<in> set (clean_word db w). \<not> is_space db c"
proof
  fix c assume "c \<in> set (clean_word db w)"
  then have "c = 45 \<or> (\<exists>c0 \<in> set w. c = ascii_upper c0 \<or> c = ascii_lower c0)"
    using assms(1) by (intro clean_word_chars)
  then show "\<not> is_space db c"
  proof
    assume "c = 45"
    then show ?thesis by (simp add: is_space_def)
  next
    assume "\<exists>c0 \<in> set w. c = ascii_upper c0 \<or> c = ascii_lower c0"
    then show ?thesis using assms(2) by (auto simp: ascii_upper_space ascii_lower_space)
  qed
qed

lemma clean_word_nonempty:
  assumes "is_ascii w" and "w \<noteq> []"
  shows "clean_word db w \<noteq> []"
proof
  assume "clean_word db w = []"
  then have "map (capitalise_part db) (split_on 45 w) = [[]]"
    by (simp add: clean_word_unfold join_Nil_iff split_on_nonempty)
  then obtain p where ps: "split_on 45 w = [p]" and "capitalise_part db p = []"
    by (cases "split_on 45 w") auto
  moreover have "p \<in> set (split_on 45 w)" by (simp add: ps)
  with assms(1) have "is_ascii p" by (rule parts_ascii)
  ultimately have "p = []" by (simp add: capitalise_part_Nil_iff)
  then have "join [45] (split_on 45 w) = []" using ps by simp
  then show False using assms(2) by (simp add: join_split)
qed

lemma clean_name_unfold:
  "clean_name db x =
     (if normalise_spaces db x = [] then []
      else join [32] (map (clean_word db) (split_on 32 (normalise_spaces db x))))"
  by (simp add: clean_name_def ustr_def Let_def)

lemma clean_name_idem:
  assumes "is_ascii s"
  shows "clean_name db (Some (clean_name db (Some s))) = clean_name db (Some s)"
proof (cases "normalise_spaces db (Some s) = []")
  case True
  then have "clean_name db (Some s) = []" by (simp add: clean_name_unfold)
  moreover have "clean_name db (Some []) = []"
    by (simp add: clean_name_unfold normalise_spaces_def strip_Nil)
  ultimately show ?thesis by simp
next
  case False
  let ?n = "normalise_spaces db (Some s)"
  let ?ws = "split_on 32 ?n"
  let ?cs = "map (clean_word db) ?ws"
  let ?r = "join [32] ?cs"
  have r: "clean_name db (Some s) = ?r" using False by (simp add: clean_name_unfold)
  have an: "is_ascii ?n" using assms by (rule is_ascii_normalise)
  have words: "\<forall>w \<in> set ?ws. w \<noteq> [] \<and> (\<forall>c \<in> set w. \<not> is_space db c)"
    using normalised_words [OF normalised_normalise False] by simp
  have asc: "is_ascii w" if "w \<in> set ?ws" for w using an that by (rule parts_ascii)
  have cleaned: "\<forall>q \<in> set ?cs. q \<noteq> [] \<and> (\<forall>c \<in> set q. \<not> is_space db c)"
  proof
    fix q assume "q \<in> set ?cs"
    then obtain w where w: "w \<in> set ?ws" and q: "q = clean_word db w" by auto
    have "w \<noteq> []" and "\<forall>c \<in> set w. \<not> is_space db c" using words w by simp_all
    then show "q \<noteq> [] \<and> (\<forall>c \<in> set q. \<not> is_space db c)"
      unfolding q using asc [OF w] by (simp add: clean_word_nonempty clean_word_no_space)
  qed
  have ne: "?cs \<noteq> []" by (simp add: split_on_nonempty)
  have "normalised db ?r" using ne cleaned normalised_join [of ?cs db] by simp
  then have fixed: "normalise_spaces db (Some ?r) = ?r" by (rule normalise_fixed)
  have "hd ?cs \<noteq> []" using ne cleaned by (meson hd_in_set)
  with ne have rne: "?r \<noteq> []" by (rule join_nonempty)
  have "\<forall>q \<in> set ?cs. 32 \<notin> set q"
  proof
    fix q assume "q \<in> set ?cs"
    then have "\<forall>c \<in> set q. \<not> is_space db c" using cleaned by blast
    moreover have "is_space db 32" by (simp add: is_space_def)
    ultimately show "32 \<notin> set q" by blast
  qed
  with ne have "split_on 32 ?r = ?cs" by (intro split_join)
  then have "clean_name db (Some ?r) = join [32] (map (clean_word db) ?cs)"
    using rne by (simp add: clean_name_unfold fixed)
  also have "map (clean_word db) ?cs = ?cs" using asc by (simp add: clean_word_idem)
  finally show ?thesis by (simp only: r)
qed

lemma clean_email_idem_lower:
  assumes idem: "\<forall>t. py_lower db (py_lower db t) = py_lower db t"
    and keeps: "\<forall>t. normalise_spaces db (Some t) = t \<longrightarrow>
                 normalise_spaces db (Some (py_lower db t)) = py_lower db t"
  shows "clean_email db (Some (clean_email db (Some s))) = clean_email db (Some s)"
proof -
  let ?n = "normalise_spaces db (Some s)"
  have "normalised db ?n" by (rule normalised_normalise)
  then have "normalise_spaces db (Some ?n) = ?n" by (rule normalise_fixed)
  then have "normalise_spaces db (Some (py_lower db ?n)) = py_lower db ?n"
    using keeps by blast
  then have "clean_email db (Some (py_lower db ?n)) = py_lower db (py_lower db ?n)"
    by (simp add: clean_email_def)
  also have "\<dots> = py_lower db ?n" using idem by blast
  finally show ?thesis by (simp add: clean_email_def)
qed

lemma clean_email_idem_any:
  assumes "is_ascii s
    \<or> ((\<forall>t. py_lower db (py_lower db t) = py_lower db t)
       \<and> (\<forall>t. normalise_spaces db (Some t) = t \<longrightarrow>
              normalise_spaces db (Some (py_lower db t)) = py_lower db t))"
  shows "clean_email db (Some (clean_email db (Some s))) = clean_email db (Some s)"
  using assms clean_email_idem [of s db] clean_email_idem_lower [of db s] by blast

text \<open>
  C5, as the code has it. \<^verbatim>\<open>clean_name\<close> and \<^verbatim>\<open>clean_company\<close> are idempotent
  on ASCII strings. \<^verbatim>\<open>clean_email\<close> is idempotent on ASCII strings and, with a
  character table in which \<^verbatim>\<open>str.lower\<close> is idempotent and takes
  whitespace-normalised strings to whitespace-normalised strings, on every
  string. \<^verbatim>\<open>clean_phone\<close> is idempotent on ASCII strings and, with a character
  table in which no whitespace character is a decimal digit, on every string.
\<close>

theorem cleaners_idempotent:
  "(is_ascii s \<longrightarrow>
      clean_name db (Some (clean_name db (Some s))) = clean_name db (Some s)
    \<and> clean_company db (Some (clean_company db (Some s))) = clean_company db (Some s))
   \<and> (is_ascii s
        \<or> ((\<forall>t. py_lower db (py_lower db t) = py_lower db t)
           \<and> (\<forall>t. normalise_spaces db (Some t) = t \<longrightarrow>
                  normalise_spaces db (Some (py_lower db t)) = py_lower db t)) \<longrightarrow>
       clean_email db (Some (clean_email db (Some s))) = clean_email db (Some s))
   \<and> (is_ascii s \<or> (\<forall>c. is_space db c \<longrightarrow> \<not> is_decimal db c) \<longrightarrow>
       clean_phone db (Some (clean_phone db (Some s))) = clean_phone db (Some s))"
proof (intro conjI impI)
  assume "is_ascii s"
  then show "clean_name db (Some (clean_name db (Some s))) = clean_name db (Some s)"
    by (rule clean_name_idem)
next
  assume "is_ascii s"
  then show "clean_company db (Some (clean_company db (Some s))) = clean_company db (Some s)"
    by (rule clean_company_idem)
next
  assume "is_ascii s
        \<or> ((\<forall>t. py_lower db (py_lower db t) = py_lower db t)
           \<and> (\<forall>t. normalise_spaces db (Some t) = t \<longrightarrow>
                  normalise_spaces db (Some (py_lower db t)) = py_lower db t))"
  then show "clean_email db (Some (clean_email db (Some s))) = clean_email db (Some s)"
    by (rule clean_email_idem_any)
next
  assume "is_ascii s \<or> (\<forall>c. is_space db c \<longrightarrow> \<not> is_decimal db c)"
  then show "clean_phone db (Some (clean_phone db (Some s))) = clean_phone db (Some s)"
    by (rule clean_phone_idem)
qed

text \<open>
  The upper case of the one-character string U+00DF is \<^verbatim>\<open>SS\<close>, so \<^verbatim>\<open>clean_name\<close>
  maps it to \<^verbatim>\<open>SS\<close>, and maps \<^verbatim>\<open>SS\<close> to \<^verbatim>\<open>Ss\<close>. The title case of U+01F0
  followed by \<^verbatim>\<open>a\<close> is J, the combining caron and \<^verbatim>\<open>a\<close>; in that string the
  \<^verbatim>\<open>a\<close> follows a character that is not cased, so \<^verbatim>\<open>clean_company\<close> maps it on
  to J, the combining caron and \<^verbatim>\<open>A\<close>.
\<close>

theorem case_cleaners_counterexample:
  "clean_name example_db (Some [223]) = ustr ''SS''
   \<and> clean_name example_db (Some (ustr ''SS'')) = ustr ''Ss''
   \<and> clean_company example_db (Some [496, 97]) = [74, 780, 97]
   \<and> clean_company example_db (Some [74, 780, 97]) = [74, 780, 65]"
  by (simp add: clean_name_def clean_word_def capitalise_part_def py_upper_def py_lower_def
      clean_company_def py_title_def
      normalise_spaces_def strip_def is_space_def is_ascii_def example_db_def upper_sharp_s_def
      ascii_upper_def ascii_lower_def is_ascii_letter_def ustr_def)

lemma example_db_lower: "py_lower example_db t = map ascii_lower t"
  by (simp add: py_lower_def example_db_def)

lemma example_db_lower_keeps:
  assumes "normalise_spaces example_db (Some t) = t"
  shows "normalise_spaces example_db (Some (py_lower example_db t)) = py_lower example_db t"
proof -
  have "normalised example_db (normalise_spaces example_db (Some t))"
    by (rule normalised_normalise)
  then have "normalised example_db t" by (simp only: assms)
  moreover have "normalised example_db (map ascii_lower t) = normalised example_db t"
    by (rule normalised_map) (simp_all add: ascii_lower_space ascii_lower_blank)
  ultimately have "normalised example_db (map ascii_lower t)" by simp
  then show ?thesis unfolding example_db_lower by (rule normalise_fixed)
qed

theorem cleaners_idempotent_witness:
  "is_ascii (ustr ''  amy-walker   o'NEIL '')
   \<and> clean_name example_db (Some (ustr ''  amy-walker   o'NEIL '')) = ustr ''Amy-Walker O'neil''
   \<and> clean_name example_db (Some (ustr ''Amy-Walker O'neil'')) = ustr ''Amy-Walker O'neil''
   \<and> \<not> is_ascii [160, 65, 64, 66, 160]
   \<and> clean_email example_db (Some [160, 65, 64, 66, 160]) = ustr ''a@b''
   \<and> clean_email example_db (Some (ustr ''a@b'')) = ustr ''a@b''
   \<and> clean_phone example_db (Some (clean_phone example_db (Some (ustr ''+44 20 7946''))))
       = clean_phone example_db (Some (ustr ''+44 20 7946''))"
proof -
  let ?s = "ustr ''  amy-walker   o'NEIL ''"
  let ?m = "[160, 65, 64, 66, 160] :: ustring"
  have a: "is_ascii ?s" by (simp add: is_ascii_def ustr_def)
  have n: "clean_name example_db (Some ?s) = ustr ''Amy-Walker O'neil''"
    by (simp add: clean_name_def clean_word_def capitalise_part_def py_upper_def py_lower_def
      normalise_spaces_def strip_def is_space_def is_ascii_def
      ascii_upper_def ascii_lower_def ustr_def)
  have b: "is_ascii (ustr ''+44 20 7946'')" by (simp add: is_ascii_def ustr_def)
  have na: "\<not> is_ascii ?m" by (simp add: is_ascii_def)
  have lower: "(\<forall>t. py_lower example_db (py_lower example_db t) = py_lower example_db t)
      \<and> (\<forall>t. normalise_spaces example_db (Some t) = t \<longrightarrow>
             normalise_spaces example_db (Some (py_lower example_db t)) = py_lower example_db t)"
    using example_db_lower_keeps by (simp add: example_db_lower ascii_lower_idem)
  have sp: "is_space example_db c =
      (if c < 128 then (9 \<le> c \<and> c \<le> 13) \<or> (28 \<le> c \<and> c \<le> 32) else c = 160)" for c
    by (simp add: is_space_def example_db_def)
  have em: "clean_email example_db (Some ?m) = ustr ''a@b''"
    by (simp add: clean_email_def example_db_lower normalise_spaces_def strip_def sp
      ascii_lower_def ustr_def)
  from cleaners_idempotent [of ?s example_db] a
  have "clean_name example_db (Some (clean_name example_db (Some ?s)))
      = clean_name example_db (Some ?s)"
    by blast
  then have r1: "clean_name example_db (Some (ustr ''Amy-Walker O'neil'')) = ustr ''Amy-Walker O'neil''"
    by (simp only: n)
  from cleaners_idempotent [of ?m example_db] lower
  have "clean_email example_db (Some (clean_email example_db (Some ?m)))
      = clean_email example_db (Some ?m)"
    by blast
  then have r2: "clean_email example_db (Some (ustr ''a@b'')) = ustr ''a@b''"
    by (simp only: em)
  from cleaners_idempotent [of "ustr ''+44 20 7946''" example_db] b
  have r3: "clean_phone example_db (Some (clean_phone example_db (Some (ustr ''+44 20 7946''))))
       = clean_phone example_db (Some (ustr ''+44 20 7946''))"
    by blast
  from a n r1 na em r2 r3 show ?thesis by blast
qed

end
